theory Spec2Isabelle
  imports Main "HOL-Library.AList"
begin

section \<open>The document tree, as far as outline.ts uses it\<close>

text \<open>
  Elements live in a store: a list of element records, an element reference being its
  position in the list. \<open>document.createElement\<close> allocates at the end, so a
  reference handed out once stays valid. Only element children are kept (the text of a
  title is the field \<open>textContent\<close>). The \<open>class\<close> and \<open>style\<close>
  attributes are kept in the fields \<open>classList\<close> and \<open>style\<close>, the other
  attributes in \<open>attributes\<close>, in insertion order.
\<close>

type_synonym ref = nat

datatype error = TypeError | HierarchyRequestError | NotFoundError | Error string

datatype handler = ToggleParentCollapsed

record element =
  tagName :: string
  attributes :: "(string \<times> string) list"
  classList :: "string list"
  textContent :: string
  style :: "(string \<times> string) list"
  listeners :: "(string \<times> handler) list"
  children :: "ref list"

type_synonym dom = "element list"

definition createElement :: "dom \<Rightarrow> string \<Rightarrow> ref \<times> dom" where
  "createElement h tag =
     (length h,
      h @ [\<lparr>tagName = tag, attributes = [], classList = [], textContent = [],
             style = [], listeners = [], children = []\<rparr>])"

definition setAttribute :: "dom \<Rightarrow> ref \<Rightarrow> string \<Rightarrow> string \<Rightarrow> dom" where
  "setAttribute h r name v = h[r := (h ! r)\<lparr>attributes := AList.update name v (attributes (h ! r))\<rparr>]"

definition getAttribute :: "dom \<Rightarrow> ref \<Rightarrow> string \<Rightarrow> string option" where
  "getAttribute h r name = map_of (attributes (h ! r)) name"

definition removeAttribute :: "dom \<Rightarrow> ref \<Rightarrow> string \<Rightarrow> dom" where
  "removeAttribute h r name = h[r := (h ! r)\<lparr>attributes := AList.delete name (attributes (h ! r))\<rparr>]"

definition classList_add :: "dom \<Rightarrow> ref \<Rightarrow> string \<Rightarrow> dom" where
  "classList_add h r c =
     h[r := (h ! r)\<lparr>classList := (if c \<in> set (classList (h ! r)) then classList (h ! r)
                                   else classList (h ! r) @ [c])\<rparr>]"

definition classList_contains :: "dom \<Rightarrow> ref \<Rightarrow> string \<Rightarrow> bool" where
  "classList_contains h r c = (c \<in> set (classList (h ! r)))"

definition set_textContent :: "dom \<Rightarrow> ref \<Rightarrow> string \<Rightarrow> dom" where
  "set_textContent h r t = h[r := (h ! r)\<lparr>textContent := t, children := []\<rparr>]"

definition set_style :: "dom \<Rightarrow> ref \<Rightarrow> string \<Rightarrow> string \<Rightarrow> dom" where
  "set_style h r prop v = h[r := (h ! r)\<lparr>style := AList.update prop v (style (h ! r))\<rparr>]"

definition addEventListener :: "dom \<Rightarrow> ref \<Rightarrow> string \<Rightarrow> handler \<Rightarrow> dom" where
  "addEventListener h r ev f = h[r := (h ! r)\<lparr>listeners := listeners (h ! r) @ [(ev, f)]\<rparr>]"

definition firstElementChild :: "dom \<Rightarrow> ref \<Rightarrow> ref option" where
  "firstElementChild h r = (case children (h ! r) of [] \<Rightarrow> None | c # _ \<Rightarrow> Some c)"

text \<open>\<open>parent.children[off]\<close>: undefined (None) outside the child list.\<close>

definition children_at :: "dom \<Rightarrow> ref \<Rightarrow> int \<Rightarrow> ref option" where
  "children_at h r off =
     (if 0 \<le> off \<and> off < int (length (children (h ! r))) then Some (children (h ! r) ! nat off)
      else None)"

definition parentElement :: "dom \<Rightarrow> ref \<Rightarrow> ref option" where
  "parentElement h c = List.find (\<lambda>p. c \<in> set (children (h ! p))) [0..<length h]"

text \<open>
  \<open>inclusiveAncestor n h a d\<close>: \<open>a\<close> is \<open>d\<close> or one of the first \<open>n\<close> ancestors
  of \<open>d\<close>. A chain of ancestors has at most \<open>length h\<close> elements.
\<close>

fun inclusiveAncestor :: "nat \<Rightarrow> dom \<Rightarrow> ref \<Rightarrow> ref \<Rightarrow> bool" where
  "inclusiveAncestor 0 h a d = (a = d)"
| "inclusiveAncestor (Suc n) h a d =
     (a = d \<or> (case parentElement h d of None \<Rightarrow> False | Some p \<Rightarrow> inclusiveAncestor n h a p))"

text \<open>\<open>node.remove()\<close>: the node leaves the child list that holds it.\<close>

definition remove_node :: "dom \<Rightarrow> ref \<Rightarrow> dom" where
  "remove_node h c = map (\<lambda>e. e\<lparr>children := removeAll c (children e)\<rparr>) h"

text \<open>
  \<open>parent.append(node)\<close> for a node that does not contain \<open>parent\<close>: the node
  leaves its old parent and becomes the last child. The target-tree builder appends only
  elements it has just created, for which the pre-insertion check of the DOM cannot fail;
  the checked operations below are used where a node comes from outside.
\<close>

definition append_node :: "dom \<Rightarrow> ref \<Rightarrow> ref \<Rightarrow> dom" where
  "append_node h p c =
     (let h1 = remove_node h c
      in h1[p := (h1 ! p)\<lparr>children := children (h1 ! p) @ [c]\<rparr>])"

definition nextSibling :: "ref list \<Rightarrow> ref \<Rightarrow> ref option" where
  "nextSibling cs c = (case dropWhile (\<lambda>x. x \<noteq> c) cs of _ # n # _ \<Rightarrow> Some n | _ \<Rightarrow> None)"

definition insert_before :: "ref list \<Rightarrow> ref \<Rightarrow> ref option \<Rightarrow> ref list" where
  "insert_before cs node referenceChild =
     (case referenceChild of
        None \<Rightarrow> cs @ [node]
      | Some c \<Rightarrow> takeWhile (\<lambda>x. x \<noteq> c) cs @ node # dropWhile (\<lambda>x. x \<noteq> c) cs)"

text \<open>
  \<open>parent.insertBefore(node, child)\<close>, with the pre-insertion check: a node that
  contains the parent is refused, and so is a reference child of another parent. A
  reference child that is the node itself stands for the node's next sibling.
\<close>

definition insertBefore :: "dom \<Rightarrow> ref \<Rightarrow> ref \<Rightarrow> ref option \<Rightarrow> error + dom" where
  "insertBefore h p node child =
     (if inclusiveAncestor (length h) h node p then Inl HierarchyRequestError
      else if (case child of None \<Rightarrow> False | Some c \<Rightarrow> c \<notin> set (children (h ! p)))
        then Inl NotFoundError
      else
        (let referenceChild = (if child = Some node then nextSibling (children (h ! p)) node
                               else child);
             h1 = remove_node h node
         in Inr (h1[p := (h1 ! p)\<lparr>children := insert_before (children (h1 ! p)) node referenceChild\<rparr>])))"

text \<open>\<open>parent.append(...nodes)\<close> with the nodes taken from a snapshot of a child list.\<close>

fun append_nodes :: "dom \<Rightarrow> ref \<Rightarrow> ref list \<Rightarrow> error + dom" where
  "append_nodes h p [] = Inr h"
| "append_nodes h p (c # cs) =
     (case insertBefore h p c None of Inl e \<Rightarrow> Inl e | Inr h1 \<Rightarrow> append_nodes h1 p cs)"

text \<open>
  \<open>this.replaceWith(node)\<close>: nothing happens when \<open>this\<close> has no parent; otherwise
  \<open>node\<close> takes the place of \<open>this\<close> in the parent's child list.
\<close>

definition replaceWith :: "dom \<Rightarrow> ref \<Rightarrow> ref \<Rightarrow> error + dom" where
  "replaceWith h this node =
     (case parentElement h this of
        None \<Rightarrow> Inr h
      | Some p \<Rightarrow>
          if inclusiveAncestor (length h) h node p then Inl HierarchyRequestError
          else
            (let cs = children (h ! p);
                 r0 = nextSibling cs this;
                 referenceChild = (if r0 = Some node then nextSibling cs node else r0);
                 h1 = remove_node (remove_node h this) node
             in Inr (h1[p := (h1 ! p)\<lparr>children := insert_before (children (h1 ! p)) node referenceChild\<rparr>])))"

text \<open>
  Document order below a node: the node, then the document order of each child in turn.
  The first argument bounds the depth; None means the bound was too small.
\<close>

fun preorder :: "nat \<Rightarrow> dom \<Rightarrow> ref \<Rightarrow> ref list option"
  and preorders :: "nat \<Rightarrow> dom \<Rightarrow> ref list \<Rightarrow> ref list option" where
  "preorder 0 h r = None"
| "preorder (Suc n) h r =
     (case preorders n h (children (h ! r)) of None \<Rightarrow> None | Some xs \<Rightarrow> Some (r # xs))"
| "preorders n h [] = Some []"
| "preorders n h (c # cs) =
     (case preorder n h c of
        None \<Rightarrow> None
      | Some xs \<Rightarrow>
          (case preorders n h cs of None \<Rightarrow> None | Some ys \<Rightarrow> Some (xs @ ys)))"

section \<open>Numbers and strings of the host language\<close>

text \<open>
  JavaScript numbers are modelled as integers. \<open>toString\<close> is the decimal rendering of
  \<open>Number.prototype.toString\<close>; \<open>parseInt\<close> follows the one-argument
  \<open>parseInt\<close>: leading blanks, a sign, an optional \<open>0x\<close>, then the longest run of
  digits, None for NaN. A character is a code unit below 256; the blanks among these
  are the ASCII ones and the no-break space.
\<close>

function digits :: "nat \<Rightarrow> string" where
  "digits n = (if n < 10 then [''0123456789'' ! n]
               else digits (n div 10) @ [''0123456789'' ! (n mod 10)])"
  by pat_completeness auto
termination
  by (relation "measure id") auto

declare digits.simps [simp del]

definition toString :: "int \<Rightarrow> string" where
  "toString i = (if i < 0 then CHR ''-'' # digits (nat (- i)) else digits (nat i))"

definition isWhiteSpace :: "char \<Rightarrow> bool" where
  "isWhiteSpace c =
     (c \<in> set [CHR '' '', CHR 0x09, CHR 0x0A, CHR 0x0B, CHR 0x0C, CHR 0x0D, CHR 0xA0])"

definition digitValue :: "char \<Rightarrow> nat option" where
  "digitValue c =
     map_of (zip ''0123456789abcdefABCDEF''
                 [0, 1, 2, 3, 4, 5, 6, 7, 8, 9, 10, 11, 12, 13, 14, 15, 10, 11, 12, 13, 14, 15]) c"

definition isDigitOf :: "nat \<Rightarrow> char \<Rightarrow> bool" where
  "isDigitOf radix c = (case digitValue c of None \<Rightarrow> False | Some d \<Rightarrow> d < radix)"

definition parseInt :: "string \<Rightarrow> int option" where
  "parseInt str =
     (let t = dropWhile isWhiteSpace str;
          sign = (case t of c # _ \<Rightarrow> if c = CHR ''-'' then - 1 else (1::int) | [] \<Rightarrow> 1);
          u = (case t of c # r \<Rightarrow> if c = CHR ''-'' \<or> c = CHR ''+'' then r else t | [] \<Rightarrow> t);
          hex = (take 2 u = ''0x'' \<or> take 2 u = ''0X'');
          radix = (if hex then 16 else 10);
          ds = takeWhile (isDigitOf radix) (if hex then drop 2 u else u)
      in if ds = [] then None
         else Some (sign * int (foldl (\<lambda>a c. a * radix + the (digitValue c)) 0 ds)))"

section \<open>The data of outline.ts\<close>

record cursorPosition =
  page_no :: int
  pos_x :: int
  pos_y :: int

datatype outlineItemData =
  OutlineItemData (title: string) (position: "cursorPosition option")
    (item_children: "outlineItemData list")

text \<open>
  The inserter of a page is a function value; the two functions this module installs
  are its constructors.
\<close>

datatype inserter = PoisionCanvasMoved | ReplaceStubToRealCanvas

record canvasPage =
  index :: int
  width :: int
  height :: int
  container :: ref
  elem :: "ref option"
  inserter :: "inserter option"
  stub :: "ref option"

text \<open>
  A page object is referred to by its position in the array \<open>pages\<close>, a GenElem object
  by its position in the store \<open>genElems\<close>.
\<close>

datatype genNode = GenPage nat | GenElemRef nat

record genElem =
  gen_children :: "genNode list"
  gen_container :: ref

text \<open>
  The names of the enumeration TypstPatchAttrs are declared in svg-patch, outside this
  module; they are a parameter.
\<close>

record typstPatchAttrs =
  Tid :: string
  ReuseFrom :: string
  BadEquality :: string

text \<open>
  The state a pass works on: the document, the page objects, the GenElem objects, and the
  fields of the GenContext. \<open>populateCntLog\<close> is a history variable that no operation
  reads: the value of \<open>populateCnt\<close> after each assignment to it.
\<close>

record state =
  doc :: dom
  pages :: "canvasPage list"
  genElems :: "genElem list"
  populateCnt :: int
  insertionPoint :: nat
  parent :: nat
  lastVisit :: "nat option"
  populateCntLog :: "int list"

section \<open>The target-tree builder\<close>

definition new_GenElem :: "state \<Rightarrow> ref \<Rightarrow> nat \<times> state" where
  "new_GenElem s c =
     (length (genElems s), s\<lparr>genElems := genElems s @ [\<lparr>gen_children = [], gen_container = c\<rparr>]\<rparr>)"

definition node_container :: "state \<Rightarrow> genNode \<Rightarrow> ref" where
  "node_container s child =
     (case child of GenPage k \<Rightarrow> container (pages s ! k)
                  | GenElemRef g \<Rightarrow> gen_container (genElems s ! g))"

definition push :: "state \<Rightarrow> nat \<Rightarrow> genNode \<Rightarrow> state" where
  "push s this child =
     (let g = genElems s ! this
      in s\<lparr>genElems := (genElems s)[this := g\<lparr>gen_children := gen_children g @ [child]\<rparr>],
           doc := append_node (doc s) (gen_container g) (node_container s child)\<rparr>)"

definition pushCanvas :: "typstPatchAttrs \<Rightarrow> state \<Rightarrow> nat \<Rightarrow> nat \<Rightarrow> state" where
  "pushCanvas A s this pg =
     (let (stb, d) = createElement (doc s) ''div'';
          d = setAttribute d stb (Tid A) (''canvas:'' @ toString (index (pages s ! pg)));
          d = setAttribute d stb ''data-page-number'' (toString (index (pages s ! pg)));
          g = genElems s ! this
      in s\<lparr>pages := (pages s)[pg := (pages s ! pg)\<lparr>stub := Some stb\<rparr>],
           genElems := (genElems s)[this := g\<lparr>gen_children := gen_children g @ [GenPage pg]\<rparr>],
           doc := append_node d (gen_container g) stb\<rparr>)"

definition tagPatchId :: "typstPatchAttrs \<Rightarrow> dom \<Rightarrow> ref \<Rightarrow> string \<Rightarrow> dom" where
  "tagPatchId A h e tid =
     setAttribute (setAttribute (setAttribute h e (Tid A) tid) e (ReuseFrom A) tid)
       e (BadEquality A) ''1''"

text \<open>
  The loop of spliceCanvas. \<open>this.pages[i - 1]\<close> outside the array is undefined, and
  pushCanvas then fails on \<open>pg.index\<close>.
\<close>

function spliceLoop :: "typstPatchAttrs \<Rightarrow> state \<Rightarrow> nat \<Rightarrow> int \<Rightarrow> int \<Rightarrow> error + state" where
  "spliceLoop A s nxt i until =
     (if i < until then
        (if 1 \<le> i \<and> i \<le> int (length (pages s))
         then spliceLoop A (pushCanvas A s nxt (nat (i - 1))) nxt (i + 1) until
         else Inl TypeError)
      else Inr s)"
  by pat_completeness auto
termination
  by (relation "measure (\<lambda>(A, s, nxt, i, until). nat (until - i))") auto

declare spliceLoop.simps [simp del]

definition spliceCanvas :: "typstPatchAttrs \<Rightarrow> state \<Rightarrow> nat \<Rightarrow> int \<Rightarrow> error + state" where
  "spliceCanvas A s nxt until0 =
     (let until = min until0 (int (length (pages s)) + 1)
      in case spliceLoop A s nxt (populateCnt s) until of
           Inl e \<Rightarrow> Inl e
         | Inr s1 \<Rightarrow>
             Inr (s1\<lparr>populateCnt := max until (populateCnt s1),
                     populateCntLog := populateCntLog s1 @ [max until (populateCnt s1)]\<rparr>))"

text \<open>
  \<open>generate\<close>, and the loop \<open>for (const ch of ...) this.insertionPoint =
  this.generate(ch, level)\<close>, which generate runs over the children of an item and
  patchOutlineEntry over the top-level items.
\<close>

fun generate :: "typstPatchAttrs \<Rightarrow> state \<Rightarrow> outlineItemData \<Rightarrow> int \<Rightarrow> error + nat \<times> state"
  and generate_all :: "typstPatchAttrs \<Rightarrow> state \<Rightarrow> outlineItemData list \<Rightarrow> int \<Rightarrow> error + state"
  where
  "generate A s (OutlineItemData ttl posn chs) level =
     (let (outlineDiv, d) = createElement (doc s) ''div'';
          d = classList_add d outlineDiv ''typst-outline'';
          d = setAttribute d outlineDiv ''data-title'' ttl;
          d = tagPatchId A d outlineDiv (''outline:'' @ ttl);
          (outlineNode, s) = new_GenElem (s\<lparr>doc := d\<rparr>) outlineDiv;
          pos = (case posn of None \<Rightarrow> 0 | Some p \<Rightarrow> page_no p);
          hasChildren = (max 0 (pos - populateCnt s) + int (length chs) > 0)
      in case spliceCanvas A s (insertionPoint s) pos of
           Inl e \<Rightarrow> Inl e
         | Inr s \<Rightarrow>
            (let (titleSpan, d) = createElement (doc s) ''span'';
                 d = classList_add d titleSpan ''typst-outline-title'';
                 d = classList_add d titleSpan (''level-'' @ toString level);
                 d = set_textContent d titleSpan ttl;
                 d = tagPatchId A d titleSpan (''title:'' @ ttl);
                 (titleNode, s) = new_GenElem (s\<lparr>doc := d\<rparr>) titleSpan;
                 s = push s outlineNode (GenElemRef titleNode);
                 s = s\<lparr>lastVisit := Some outlineNode\<rparr>;
                 s = push s (parent s) (GenElemRef outlineNode);
                 parent0 = parent s;
                 insertionPoint0 = insertionPoint s;
                 s = s\<lparr>parent := outlineNode, insertionPoint := outlineNode\<rparr>
             in case generate_all A s chs (level + 1) of
                  Inl e \<Rightarrow> Inl e
                | Inr s \<Rightarrow>
                   (let s = s\<lparr>insertionPoint := insertionPoint0, parent := parent0\<rparr>;
                        s = (if hasChildren
                             then s\<lparr>doc := addEventListener
                                    (set_style (set_style (doc s) titleSpan ''text-decoration'' ''underline'')
                                       titleSpan ''cursor'' ''pointer'')
                                    titleSpan ''click'' ToggleParentCollapsed\<rparr>
                             else s)
                    in Inr (outlineNode, s))))"
| "generate_all A s [] level = Inr s"
| "generate_all A s (ch # chs) level =
     (case generate A s ch level of
        Inl e \<Rightarrow> Inl e
      | Inr (node, s1) \<Rightarrow> generate_all A (s1\<lparr>insertionPoint := node\<rparr>) chs level)"

text \<open>\<open>new GenContext(pages)\<close>, on the document and the page objects of the caller.\<close>

definition new_GenContext :: "dom \<Rightarrow> canvasPage list \<Rightarrow> state" where
  "new_GenContext h pgs =
     (let (root, d) = createElement h ''div''
      in \<lparr>doc = d, pages = pgs, genElems = [\<lparr>gen_children = [], gen_container = root\<rparr>],
          populateCnt = 1, insertionPoint = 0, parent = 0, lastVisit = None,
          populateCntLog = [1]\<rparr>)"

text \<open>
  The first part of patchOutlineEntry, up to the comment "patch outline to container":
  the construction of the target tree. The GenElem \<open>next\<close> is the one at position 0.
\<close>

definition generateOutline ::
  "typstPatchAttrs \<Rightarrow> dom \<Rightarrow> canvasPage list \<Rightarrow> outlineItemData list \<Rightarrow> error + state" where
  "generateOutline A h pgs items =
     (let ctx = new_GenContext h pgs;
          nxt = insertionPoint ctx
      in case generate_all A ctx items 1 of
           Inl e \<Rightarrow> Inl e
         | Inr ctx \<Rightarrow>
             spliceCanvas A ctx (case lastVisit ctx of None \<Rightarrow> nxt | Some l \<Rightarrow> l)
               (int (length pgs) + 1))"

section \<open>The inserters\<close>


definition replaceStubToRealCanvas :: "state \<Rightarrow> nat \<Rightarrow> error + state" where
  "replaceStubToRealCanvas s t =
     (case stub (pages s ! t) of
        None \<Rightarrow> Inl TypeError
      | Some stb \<Rightarrow>
          (case replaceWith (doc s) stb (container (pages s ! t)) of
             Inl e \<Rightarrow> Inl e
           | Inr d \<Rightarrow> Inr (s\<lparr>doc := d, pages := (pages s)[t := (pages s ! t)\<lparr>stub := None\<rparr>]\<rparr>)))"


section \<open>Reconciliation\<close>

text \<open>
  The functions imported from svg-patch are parameters: the reuse oracle, the attribute
  patcher, and the two functions of the sequence alignment. They read the document (the
  patcher returns the document it has changed) and have no access to the page objects.
  The type of a target view is left open.
\<close>

datatype fr = FrNode ref | FrNumber int | FrUndefined

type_synonym instruction = "string \<times> int \<times> fr"

record 'tv svgPatch =
  patchAttrs :: typstPatchAttrs
  equalPatchElem :: "dom \<Rightarrow> ref \<Rightarrow> ref \<Rightarrow> bool"
  patchAttributes :: "dom \<Rightarrow> ref \<Rightarrow> ref \<Rightarrow> dom"
  interpretTargetView :: "dom \<Rightarrow> ref list \<Rightarrow> ref list \<Rightarrow> bool \<Rightarrow> 'tv \<times> (ref \<times> ref) list"
  changeViewPerspective :: "dom \<Rightarrow> ref list \<Rightarrow> 'tv \<Rightarrow> instruction list"

text \<open>
  \<open>Number.parseInt(e.getAttribute('data-page-number')!)\<close>: a missing attribute is
  null, which parseInt reads as the string "null", so NaN.
\<close>

definition pageNumberOf :: "dom \<Rightarrow> ref \<Rightarrow> int option" where
  "pageNumberOf h e =
     (case getAttribute h e ''data-page-number'' of None \<Rightarrow> None | Some v \<Rightarrow> parseInt v)"

text \<open>\<open>ctx.pages[pageNumber]\<close>: the page object there, undefined (None) otherwise.\<close>

definition pages_at :: "state \<Rightarrow> int option \<Rightarrow> nat option" where
  "pages_at s pageNumber =
     (case pageNumber of
        None \<Rightarrow> None
      | Some n \<Rightarrow> if 0 \<le> n \<and> n < int (length (pages s)) then Some (nat n) else None)"

text \<open>The body of the branch \<open>case "remove"\<close> before \<open>elem.remove()\<close>.\<close>

definition recoverRemoved :: "state \<Rightarrow> ref \<Rightarrow> error + state" where
  "recoverRemoved s e =
     (if classList_contains (doc s) e ''typst-page'' then
        (let pageNumber = pageNumberOf (doc s) e
         in if (case pageNumber of None \<Rightarrow> False | Some n \<Rightarrow> n < int (length (pages s))) then
              (case pages_at s pageNumber of
                 None \<Rightarrow> Inl TypeError
               | Some k \<Rightarrow>
                   Inr (s\<lparr>pages := (pages s)[k := (pages s ! k)
                            \<lparr>container := e, elem := firstElementChild (doc s) e\<rparr>]\<rparr>))
            else Inr s)
      else Inr s)"

text \<open>One turn of the loop of runOriginViewInstructionsOnOutline.\<close>

definition runInstruction :: "state \<Rightarrow> ref \<Rightarrow> instruction \<Rightarrow> error + state" where
  "runInstruction s prev ins =
     (case ins of (op, off, fr) \<Rightarrow>
       (let el = children_at (doc s) prev off
        in if op = ''insert'' then
             (case fr of
                FrNode n \<Rightarrow>
                  (case insertBefore (doc s) prev n el of
                     Inl e \<Rightarrow> Inl e | Inr d \<Rightarrow> Inr (s\<lparr>doc := d\<rparr>))
              | _ \<Rightarrow> Inl TypeError)
           else if op = ''swap_in'' then
             (case (case fr of FrNumber i \<Rightarrow> children_at (doc s) prev i | _ \<Rightarrow> None) of
                None \<Rightarrow> Inl TypeError
              | Some c \<Rightarrow>
                  (case insertBefore (doc s) prev c el of
                     Inl e \<Rightarrow> Inl e | Inr d \<Rightarrow> Inr (s\<lparr>doc := d\<rparr>)))
           else if op = ''remove'' then
             (case el of
                None \<Rightarrow> Inl TypeError
              | Some e \<Rightarrow>
                  (case recoverRemoved s e of
                     Inl x \<Rightarrow> Inl x
                   | Inr s1 \<Rightarrow> Inr (s1\<lparr>doc := remove_node (doc s1) e\<rparr>)))
           else Inl (Error (''unknown op '' @ op))))"

fun runOriginViewInstructionsOnOutline :: "state \<Rightarrow> ref \<Rightarrow> instruction list \<Rightarrow> error + state" where
  "runOriginViewInstructionsOnOutline s prev [] = Inr s"
| "runOriginViewInstructionsOnOutline s prev (ins # originView) =
     (case runInstruction s prev ins of
        Inl e \<Rightarrow> Inl e
      | Inr s1 \<Rightarrow> runOriginViewInstructionsOnOutline s1 prev originView)"

text \<open>The page branch of a reuse in reuseOrPatchOutlineElem.\<close>

definition rebindReused :: "state \<Rightarrow> ref \<Rightarrow> ref \<Rightarrow> error + state" where
  "rebindReused s prev nxt =
     (case pages_at s (pageNumberOf (doc s) nxt) of
        None \<Rightarrow> Inl TypeError
      | Some k \<Rightarrow>
          Inr (s\<lparr>pages := (pages s)[k := (pages s ! k)
                   \<lparr>inserter := Some PoisionCanvasMoved, container := prev,
                    elem := firstElementChild (doc s) prev\<rparr>]\<rparr>))"

text \<open>
  reuseOrPatchOutlineElem and patchOutlineChildren call each other down the previous
  tree, along the pairs that interpretTargetView returns. The first argument bounds the
  depth of these calls; None means the bound was reached.
\<close>

fun reuseOrPatchOutlineElem ::
    "nat \<Rightarrow> 'tv svgPatch \<Rightarrow> state \<Rightarrow> ref \<Rightarrow> ref \<Rightarrow> (error + bool \<times> state) option"
  and patchOutlineChildren ::
    "nat \<Rightarrow> 'tv svgPatch \<Rightarrow> state \<Rightarrow> ref \<Rightarrow> ref \<Rightarrow> (error + state) option"
  and patchPairs ::
    "nat \<Rightarrow> 'tv svgPatch \<Rightarrow> state \<Rightarrow> (ref \<times> ref) list \<Rightarrow> (error + state) option"
  where
  "reuseOrPatchOutlineElem n X s prev nxt =
     (let canReuse = equalPatchElem X (doc s) prev nxt;
          s = s\<lparr>doc := removeAttribute (doc s) nxt (ReuseFrom (patchAttrs X))\<rparr>;
          isPageElem = classList_contains (doc s) prev ''typst-page'';
          s = (if \<not> isPageElem then s\<lparr>doc := patchAttributes X (doc s) prev nxt\<rparr> else s)
      in if canReuse then
           (if isPageElem then
              (case rebindReused s prev nxt of
                 Inl e \<Rightarrow> Some (Inl e)
               | Inr s1 \<Rightarrow> Some (Inr (True, s1)))
            else Some (Inr (True, s)))
         else if isPageElem then Some (Inr (False, s))
         else
           (case n of
              0 \<Rightarrow> None
            | Suc m \<Rightarrow>
                (case patchOutlineChildren m X s prev nxt of
                   None \<Rightarrow> None
                 | Some (Inl e) \<Rightarrow> Some (Inl e)
                 | Some (Inr s1) \<Rightarrow> Some (Inr (False, s1)))))"
| "patchOutlineChildren n X s prev nxt =
     (case interpretTargetView X (doc s) (children (doc s ! prev)) (children (doc s ! nxt)) False of
        (targetView, toPatch) \<Rightarrow>
          (case patchPairs n X s toPatch of
             None \<Rightarrow> None
           | Some (Inl e) \<Rightarrow> Some (Inl e)
           | Some (Inr s1) \<Rightarrow>
               Some (runOriginViewInstructionsOnOutline s1 prev
                       (changeViewPerspective X (doc s1) (children (doc s1 ! prev)) targetView))))"
| "patchPairs n X s [] = Some (Inr s)"
| "patchPairs n X s ((prevChild, nextChild) # toPatch) =
     (case reuseOrPatchOutlineElem n X s prevChild nextChild of
        None \<Rightarrow> None
      | Some (Inl e) \<Rightarrow> Some (Inl e)
      | Some (Inr (reused, s1)) \<Rightarrow> patchPairs n X s1 toPatch)"

text \<open>The loop \<open>page.inserter ||= replaceStubToRealCanvas\<close> over the pages.\<close>

definition armInserters :: "canvasPage list \<Rightarrow> canvasPage list" where
  "armInserters pgs =
     map (\<lambda>page. if inserter page = None then page\<lparr>inserter := Some ReplaceStubToRealCanvas\<rparr>
                  else page) pgs"

definition patchOutlineEntry ::
  "nat \<Rightarrow> 'tv svgPatch \<Rightarrow> dom \<Rightarrow> ref \<Rightarrow> canvasPage list \<Rightarrow> outlineItemData list
     \<Rightarrow> (error + state) option" where
  "patchOutlineEntry n X h prev pgs items =
     (case generateOutline (patchAttrs X) h pgs items of
        Inl e \<Rightarrow> Some (Inl e)
      | Inr ctx \<Rightarrow>
          (let nxt = gen_container (genElems ctx ! 0)
           in case (if children (doc ctx ! prev) = []
                    then Some (case append_nodes (doc ctx) prev (children (doc ctx ! nxt)) of
                                 Inl e \<Rightarrow> Inl e | Inr d \<Rightarrow> Inr (ctx\<lparr>doc := d\<rparr>))
                    else patchOutlineChildren n X ctx prev nxt) of
                None \<Rightarrow> None
              | Some (Inl e) \<Rightarrow> Some (Inl e)
              | Some (Inr ctx1) \<Rightarrow> Some (Inr (ctx1\<lparr>pages := armInserters (pages ctx1)\<rparr>))))"

section \<open>Invariants of the target-tree builder\<close>

text \<open>
  \<open>spine d r p x\<close>: \<open>x\<close> is reached from \<open>r\<close> by going to the last child again and
  again; \<open>p\<close> lists the elements passed on the way, \<open>r\<close> first and \<open>x\<close> left out.
\<close>

inductive spine :: "dom \<Rightarrow> ref \<Rightarrow> ref list \<Rightarrow> ref \<Rightarrow> bool" where
  here: "spine d x [] x"
| down: "children (d ! r) \<noteq> [] \<Longrightarrow> spine d (last (children (d ! r))) p x \<Longrightarrow> spine d r (r # p) x"

definition containerOf :: "state \<Rightarrow> nat \<Rightarrow> ref" where
  "containerOf s g = gen_container (genElems s ! g)"

text \<open>The GenElem objects in use exist, and their containers are elements made by the pass.\<close>

definition gens_ok :: "nat \<Rightarrow> state \<Rightarrow> bool" where
  "gens_ok b s \<longleftrightarrow>
     insertionPoint s < length (genElems s) \<and> parent s < length (genElems s)
     \<and> (\<forall>l. lastVisit s = Some l \<longrightarrow> l < length (genElems s))
     \<and> (\<forall>g < length (genElems s). b \<le> containerOf s g \<and> containerOf s g < length (doc s))"

text \<open>\<open>xs\<close> is the target tree below the root \<open>b\<close> in document order, without repetition.\<close>

definition tree_ok :: "nat \<Rightarrow> state \<Rightarrow> ref list \<Rightarrow> bool" where
  "tree_ok b s xs \<longleftrightarrow>
     (\<exists>n. preorder n (doc s) b = Some xs) \<and> distinct xs \<and> set xs \<subseteq> {b..<length (doc s)}"

text \<open>
  The first \<open>k\<close> pages have their placeholders, and these are, in the order of the pages,
  the elements of \<open>xs\<close> that are placeholders of these pages.
\<close>

definition stubs_ok :: "state \<Rightarrow> ref list \<Rightarrow> nat \<Rightarrow> bool" where
  "stubs_ok s xs k \<longleftrightarrow>
     k \<le> length (pages s)
     \<and> (\<exists>es. map stub (take k (pages s)) = map Some es \<and> filter (\<lambda>r. r \<in> set es) xs = es)"

text \<open>The pages differ from the ones the caller passed in their stub fields only.\<close>

definition pages_ok :: "canvasPage list \<Rightarrow> state \<Rightarrow> bool" where
  "pages_ok pgs s \<longleftrightarrow>
     map (\<lambda>page. page\<lparr>stub := None\<rparr>) (pages s) = map (\<lambda>page. page\<lparr>stub := None\<rparr>) pgs"

definition log_ok :: "canvasPage list \<Rightarrow> state \<Rightarrow> bool" where
  "log_ok pgs s \<longleftrightarrow>
     sorted (populateCntLog s) \<and> set (populateCntLog s) \<subseteq> {1..int (length pgs) + 1}
     \<and> populateCntLog s \<noteq> [] \<and> last (populateCntLog s) = populateCnt s"

text \<open>What holds between two calls of spliceCanvas.\<close>

definition build_inv :: "nat \<Rightarrow> canvasPage list \<Rightarrow> state \<Rightarrow> ref list \<Rightarrow> bool" where
  "build_inv b pgs s xs \<longleftrightarrow>
     gens_ok b s \<and> tree_ok b s xs \<and> pages_ok pgs s \<and> log_ok pgs s
     \<and> 1 \<le> populateCnt s \<and> stubs_ok s xs (nat (populateCnt s - 1))"

text \<open>
  What generate and its loop need and give. The container of the current parent lies on
  the rightmost path of the target tree, at the end of \<open>p\<close>, and the insertion point
  is the parent or its last child. generate returns a node that is the new last child of
  the parent; the last visited node then lies on the rightmost path too.
\<close>

definition gen_pre :: "nat \<Rightarrow> canvasPage list \<Rightarrow> ref list \<Rightarrow> state \<Rightarrow> ref list \<Rightarrow> bool" where
  "gen_pre b pgs p s xs \<longleftrightarrow>
     build_inv b pgs s xs
     \<and> spine (doc s) b p (containerOf s (parent s))
     \<and> (containerOf s (insertionPoint s) = containerOf s (parent s)
        \<or> spine (doc s) b (p @ [containerOf s (parent s)]) (containerOf s (insertionPoint s)))"

definition gens_extend :: "state \<Rightarrow> state \<Rightarrow> bool" where
  "gens_extend s s' \<longleftrightarrow>
     length (genElems s) \<le> length (genElems s') \<and> length (doc s) \<le> length (doc s')
     \<and> populateCnt s \<le> populateCnt s'
     \<and> (\<forall>g < length (genElems s). containerOf s' g = containerOf s g)"

definition last_on_spine :: "nat \<Rightarrow> state \<Rightarrow> bool" where
  "last_on_spine b s \<longleftrightarrow> (\<exists>l q. lastVisit s = Some l \<and> spine (doc s) b q (containerOf s l))"

definition gen_post ::
  "nat \<Rightarrow> canvasPage list \<Rightarrow> ref list \<Rightarrow> state \<Rightarrow> ref list \<Rightarrow> nat \<Rightarrow> state \<Rightarrow> ref list \<Rightarrow> bool" where
  "gen_post b pgs p s xs node s' ys \<longleftrightarrow>
     build_inv b pgs s' (xs @ ys) \<and> gens_extend s s'
     \<and> parent s' = parent s \<and> insertionPoint s' = insertionPoint s
     \<and> node < length (genElems s')
     \<and> spine (doc s') b (p @ [containerOf s (parent s)]) (containerOf s' node)
     \<and> last_on_spine b s'"

definition gen_all_post ::
  "nat \<Rightarrow> canvasPage list \<Rightarrow> ref list \<Rightarrow> state \<Rightarrow> ref list \<Rightarrow> outlineItemData list \<Rightarrow> state \<Rightarrow> ref list
     \<Rightarrow> bool" where
  "gen_all_post b pgs p s xs items s' ys \<longleftrightarrow>
     gen_pre b pgs p s' (xs @ ys) \<and> gens_extend s s' \<and> parent s' = parent s
     \<and> (if items = [] then s' = s else last_on_spine b s')"

text \<open>
  The body of generate in three parts, around the call of spliceCanvas and the loop over
  the children: the element of the outline node, the title and the two calls of push, and
  the end of the function. The lemma generate_phases states that generate is their
  composition.
\<close>

definition gen_open :: "typstPatchAttrs \<Rightarrow> state \<Rightarrow> string \<Rightarrow> nat \<times> state" where
  "gen_open A s ttl =
     (let (outlineDiv, d) = createElement (doc s) ''div'';
          d = classList_add d outlineDiv ''typst-outline'';
          d = setAttribute d outlineDiv ''data-title'' ttl;
          d = tagPatchId A d outlineDiv (''outline:'' @ ttl)
      in new_GenElem (s\<lparr>doc := d\<rparr>) outlineDiv)"

definition gen_title :: "typstPatchAttrs \<Rightarrow> state \<Rightarrow> nat \<Rightarrow> string \<Rightarrow> int \<Rightarrow> ref \<times> state" where
  "gen_title A s outlineNode ttl level =
     (let (titleSpan, d) = createElement (doc s) ''span'';
          d = classList_add d titleSpan ''typst-outline-title'';
          d = classList_add d titleSpan (''level-'' @ toString level);
          d = set_textContent d titleSpan ttl;
          d = tagPatchId A d titleSpan (''title:'' @ ttl);
          (titleNode, s) = new_GenElem (s\<lparr>doc := d\<rparr>) titleSpan;
          s = push s outlineNode (GenElemRef titleNode);
          s = s\<lparr>lastVisit := Some outlineNode\<rparr>;
          s = push s (parent s) (GenElemRef outlineNode)
      in (titleSpan, s))"

definition gen_close :: "state \<Rightarrow> nat \<Rightarrow> nat \<Rightarrow> ref \<Rightarrow> bool \<Rightarrow> state" where
  "gen_close s insertionPoint0 parent0 titleSpan hasChildren =
     (let s = s\<lparr>insertionPoint := insertionPoint0, parent := parent0\<rparr>
      in if hasChildren
         then s\<lparr>doc := addEventListener
                (set_style (set_style (doc s) titleSpan ''text-decoration'' ''underline'')
                   titleSpan ''cursor'' ''pointer'')
                titleSpan ''click'' ToggleParentCollapsed\<rparr>
         else s)"

text \<open>
  What the builder writes on the elements it makes. The three kinds of element are told
  apart by their marks: the element of an outline node carries its title in
  \<open>data-title\<close>, a title element carries it as its text, a placeholder carries the
  \<open>index\<close> field of its page. The names of TypstPatchAttrs are supposed to differ from
  one another and from the two attribute names outline.ts writes itself.
\<close>

definition attrs_distinct :: "typstPatchAttrs \<Rightarrow> bool" where
  "attrs_distinct A \<longleftrightarrow>
     distinct [Tid A, ReuseFrom A, BadEquality A, ''data-page-number'', ''data-title'']"

definition outline_tagged :: "typstPatchAttrs \<Rightarrow> dom \<Rightarrow> ref \<Rightarrow> bool" where
  "outline_tagged A d r \<longleftrightarrow>
     tagName (d ! r) = ''div'' \<and> classList_contains d r ''typst-outline''
     \<and> (case getAttribute d r ''data-title'' of
          None \<Rightarrow> False
        | Some t \<Rightarrow> getAttribute d r (Tid A) = Some (''outline:'' @ t)
                    \<and> getAttribute d r (ReuseFrom A) = Some (''outline:'' @ t))
     \<and> getAttribute d r (BadEquality A) = Some ''1''
     \<and> getAttribute d r ''data-page-number'' = None"

definition title_tagged :: "typstPatchAttrs \<Rightarrow> dom \<Rightarrow> ref \<Rightarrow> bool" where
  "title_tagged A d r \<longleftrightarrow>
     tagName (d ! r) = ''span'' \<and> classList_contains d r ''typst-outline-title''
     \<and> getAttribute d r (Tid A) = Some (''title:'' @ textContent (d ! r))
     \<and> getAttribute d r (ReuseFrom A) = Some (''title:'' @ textContent (d ! r))
     \<and> getAttribute d r (BadEquality A) = Some ''1''
     \<and> getAttribute d r ''data-page-number'' = None"

definition placeholder_tagged :: "typstPatchAttrs \<Rightarrow> int \<Rightarrow> dom \<Rightarrow> ref \<Rightarrow> bool" where
  "placeholder_tagged A i d r \<longleftrightarrow>
     tagName (d ! r) = ''div''
     \<and> getAttribute d r (Tid A) = Some (''canvas:'' @ toString i)
     \<and> getAttribute d r ''data-page-number'' = Some (toString i)
     \<and> getAttribute d r (BadEquality A) = None"

text \<open>The fields of an element that the marks are read from.\<close>

definition marks :: "element \<Rightarrow> string \<times> (string \<times> string) list \<times> string list \<times> string" where
  "marks e = (tagName e, attributes e, classList e, textContent e)"

definition same_marks :: "dom \<Rightarrow> dom \<Rightarrow> bool" where
  "same_marks d d' \<longleftrightarrow> length d \<le> length d' \<and> (\<forall>r < length d. marks (d' ! r) = marks (d ! r))"

text \<open>
  The root \<open>b\<close> of the target tree has no attribute; every other element made by the
  pass is the element of an outline node, a title, or the placeholder of one of the first
  \<open>k\<close> pages; and each of these pages has its placeholder.
\<close>

definition marks_inv :: "typstPatchAttrs \<Rightarrow> nat \<Rightarrow> state \<Rightarrow> nat \<Rightarrow> bool" where
  "marks_inv A b s k \<longleftrightarrow>
     b < length (doc s) \<and> attributes (doc s ! b) = [] \<and> k \<le> length (pages s)
     \<and> (\<forall>r. b < r \<and> r < length (doc s) \<longrightarrow>
           outline_tagged A (doc s) r \<or> title_tagged A (doc s) r
           \<or> (\<exists>j < k. stub (pages s ! j) = Some r))
     \<and> (\<forall>j < k. \<exists>r. stub (pages s ! j) = Some r \<and> b < r \<and> r < length (doc s)
           \<and> placeholder_tagged A (index (pages s ! j)) (doc s) r)"

text \<open>
  Between two states of the reconciliation: the pages keep their placeholders, and a
  page whose inserter is the poison keeps it.
\<close>

definition pages_kept :: "state \<Rightarrow> state \<Rightarrow> bool" where
  "pages_kept s s' \<longleftrightarrow>
     map stub (pages s') = map stub (pages s)
     \<and> (\<forall>k < length (pages s). inserter (pages s ! k) = Some PoisionCanvasMoved
           \<longrightarrow> inserter (pages s' ! k) = Some PoisionCanvasMoved)"

text \<open>
  How a scenario names the nodes of a tree: the element of an outline node by its title,
  a placeholder by \<open>page:\<close> and the number it carries; a title element and the root
  have no name.
\<close>

definition node_label :: "dom \<Rightarrow> ref \<Rightarrow> string option" where
  "node_label d r =
     (case getAttribute d r ''data-title'' of
        Some t \<Rightarrow> Some t
      | None \<Rightarrow>
          (case getAttribute d r ''data-page-number'' of
             Some n \<Rightarrow> Some (''page:'' @ n)
           | None \<Rightarrow> None))"

section \<open>Example inputs\<close>

text \<open>
  A previous root (0) holding the rendered region of page 0 (2, with its canvas 1), a
  target root (3) holding the placeholder of page 0 (4), and the container the caller
  supplies for page 0 (5, with its canvas 6).
\<close>

definition example_element :: "string \<Rightarrow> (string \<times> string) list \<Rightarrow> string list \<Rightarrow> ref list \<Rightarrow> element" where
  "example_element tag attrs classes cs =
     \<lparr>tagName = tag, attributes = attrs, classList = classes, textContent = [],
      style = [], listeners = [], children = cs\<rparr>"

definition example_doc :: dom where
  "example_doc =
     [example_element ''div'' [] [] [2],
      example_element ''canvas'' [] [] [],
      example_element ''div'' [(''data-page-number'', ''0'')] [''typst-page''] [1],
      example_element ''div'' [] [] [4],
      example_element ''div'' [(''data-tid'', ''canvas:0''), (''data-page-number'', ''0'')] [] [],
      example_element ''div'' [] [''typst-page''] [6],
      example_element ''canvas'' [] [] []]"

definition example_page :: canvasPage where
  "example_page =
     \<lparr>index = 0, width = 595, height = 842, container = 5, elem = Some 6,
      inserter = None, stub = Some 4\<rparr>"

definition example_state :: state where
  "example_state =
     \<lparr>doc = example_doc, pages = [example_page],
      genElems = [\<lparr>gen_children = [GenPage 0], gen_container = 3\<rparr>],
      populateCnt = 2, insertionPoint = 0, parent = 0, lastVisit = None,
      populateCntLog = [1, 2]\<rparr>"

definition example_attrs :: typstPatchAttrs where
  "example_attrs =
     \<lparr>Tid = ''data-tid'', ReuseFrom = ''data-reuse-from'', BadEquality = ''data-bad-equality''\<rparr>"

definition example_svgPatch :: "unit svgPatch" where
  "example_svgPatch =
     \<lparr>patchAttrs = example_attrs,
      equalPatchElem = (\<lambda>h p n. getAttribute h p ''data-page-number'' = getAttribute h n ''data-page-number''),
      patchAttributes = (\<lambda>h p n. h[p := (h ! p)\<lparr>attributes := attributes (h ! n)\<rparr>]),
      interpretTargetView = (\<lambda>h ps ns b. ((), zip ps ns)),
      changeViewPerspective = (\<lambda>h ps tv. [])\<rparr>"

text \<open>The same state after the document shrank to no page: the region of page 0 is stale.\<close>

definition example_state_shrunk :: state where
  "example_state_shrunk = example_state\<lparr>pages := []\<rparr>"

text \<open>The same state, the rendered region carrying the page number 1.\<close>

definition example_state_last :: state where
  "example_state_last =
     example_state\<lparr>doc := setAttribute example_doc 2 ''data-page-number'' ''1''\<rparr>"

text \<open>
  The scenario of a document of three pages with an outline item \<open>A\<close> on page 1 and an
  outline item \<open>B\<close> on page 3: an empty previous root (0) and the containers of the three
  pages (1, 2, 3), which the caller supplies.
\<close>

definition scenario_items :: "outlineItemData list" where
  "scenario_items =
     [OutlineItemData ''A'' (Some \<lparr>page_no = 1, pos_x = 0, pos_y = 0\<rparr>) [],
      OutlineItemData ''B'' (Some \<lparr>page_no = 3, pos_x = 0, pos_y = 0\<rparr>) []]"

definition scenario_doc :: dom where
  "scenario_doc =
     [example_element ''div'' [] [] [],
      example_element ''div'' [] [''typst-page''] [],
      example_element ''div'' [] [''typst-page''] [],
      example_element ''div'' [] [''typst-page''] []]"

definition scenario_page :: "int \<Rightarrow> ref \<Rightarrow> canvasPage" where
  "scenario_page i c =
     \<lparr>index = i, width = 595, height = 842, container = c, elem = None,
      inserter = None, stub = None\<rparr>"

definition scenario_pages :: "canvasPage list" where
  "scenario_pages = [scenario_page 1 1, scenario_page 2 2, scenario_page 3 3]"


text \<open>
  A collaborator that reuses nothing, pairs the children in order, and returns an
  instruction of the unknown kind \<open>move\<close> wherever the previous element has no
  children; and a previous root (0) with one child (1) that is not a page.
\<close>

definition example_svgPatch_move :: "unit svgPatch" where
  "example_svgPatch_move =
     \<lparr>patchAttrs = example_attrs,
      equalPatchElem = (\<lambda>h p n. False),
      patchAttributes = (\<lambda>h p n. h),
      interpretTargetView = (\<lambda>h ps ns b. ((), zip ps ns)),
      changeViewPerspective = (\<lambda>h ps tv. if ps = [] then [(''move'', 0, FrUndefined)] else [])\<rparr>"

definition example_prev_doc :: dom where
  "example_prev_doc = [example_element ''div'' [] [] [1], example_element ''div'' [] [] []]"

definition example_items :: "outlineItemData list" where
  "example_items = [OutlineItemData ''A'' None []]"


section \<open>Basic facts about the document operations\<close>

lemma nth_list_update_any:
  "(h[r := v]) ! e = (if e = r \<and> r < length h then v else h ! e)"
  by (cases "r < length h") (simp_all add: nth_list_update list_update_beyond)

lemma parentElement_SomeD:
  "parentElement h c = Some p \<Longrightarrow> p < length h \<and> c \<in> set (children (h ! p))"
  by (auto simp add: parentElement_def find_Some_iff)

lemma inclusiveAncestor_root:
  "parentElement h d = None \<Longrightarrow> inclusiveAncestor n h a d = (a = d)"
  by (cases n) simp_all

lemma children_remove_node:
  "p < length h \<Longrightarrow> children (remove_node h c ! p) = removeAll c (children (h ! p))"
  by (simp add: remove_node_def)

lemma length_remove_node [simp]: "length (remove_node h c) = length h"
  by (simp add: remove_node_def)

lemma dropWhile_neq_split:
  "x \<notin> set pre \<Longrightarrow> dropWhile (\<lambda>y. y \<noteq> x) (pre @ x # post) = x # post"
  by (induction pre) auto

lemma takeWhile_neq_split:
  "x \<notin> set pre \<Longrightarrow> takeWhile (\<lambda>y. y \<noteq> x) (pre @ x # post) = pre"
  by (induction pre) auto

lemma nextSibling_split:
  "x \<notin> set pre \<Longrightarrow> nextSibling (pre @ x # post) x = (case post of [] \<Rightarrow> None | n # _ \<Rightarrow> Some n)"
proof -
  assume "x \<notin> set pre"
  then have "dropWhile (\<lambda>y. y \<noteq> x) (pre @ x # post) = x # post"
    by (rule dropWhile_neq_split)
  then show ?thesis
    by (simp add: nextSibling_def split: list.splits)
qed

lemma replace_in_children:
  assumes "distinct cs" and "stb \<in> set cs" and "c \<notin> set cs"
  shows "insert_before (removeAll c (removeAll stb cs)) c
           (if nextSibling cs stb = Some c then nextSibling cs c else nextSibling cs stb)
         = map (\<lambda>x. if x = stb then c else x) cs"
proof -
  from assms(2) obtain pre post where cs: "cs = pre @ stb # post" and pre: "stb \<notin> set pre"
    by (auto dest: split_list_first)
  from assms(1) cs have post: "stb \<notin> set post" and dp: "distinct (pre @ post)" by auto
  from assms(3) cs have c: "c \<notin> set pre" "c \<notin> set post" "c \<noteq> stb" by auto
  have ns: "nextSibling cs stb = (case post of [] \<Rightarrow> None | n # _ \<Rightarrow> Some n)"
    using pre by (simp add: cs nextSibling_split)
  have nc: "nextSibling cs stb \<noteq> Some c"
    using c by (auto simp add: ns split: list.splits)
  have rm: "removeAll c (removeAll stb cs) = pre @ post"
    using pre post c by (simp add: cs)
  have mp: "map (\<lambda>x. if x = stb then c else x) cs = pre @ c # post"
    using pre post by (auto simp add: cs intro!: map_idI)
  show ?thesis
  proof (cases post)
    case Nil
    then show ?thesis using nc by (simp add: rm mp ns insert_before_def)
  next
    case (Cons n post')
    with dp have "n \<notin> set pre" by auto
    then have "takeWhile (\<lambda>x. x \<noteq> n) (pre @ post) = pre" "dropWhile (\<lambda>x. x \<noteq> n) (pre @ post) = post"
      using Cons by (simp_all add: takeWhile_neq_split dropWhile_neq_split)
    then show ?thesis using nc Cons by (simp add: rm mp ns insert_before_def)
  qed
qed

lemma replaceWith_children:
  assumes "parentElement h stb = Some p"
    and "\<not> inclusiveAncestor (length h) h c p"
    and "distinct (children (h ! p))" and "c \<notin> set (children (h ! p))"
  shows "\<exists>d. replaceWith h stb c = Inr d \<and> length d = length h \<and>
           children (d ! p) = map (\<lambda>x. if x = stb then c else x) (children (h ! p))"
proof -
  from assms(1) have p: "p < length h" and mem: "stb \<in> set (children (h ! p))"
    by (auto dest: parentElement_SomeD)
  show ?thesis
    using assms p replace_in_children [OF assms(3) mem assms(4)]
    by (simp add: replaceWith_def Let_def children_remove_node)
qed

lemma pageNumberOf_removeAttribute:
  "name \<noteq> ''data-page-number'' \<Longrightarrow> pageNumberOf (removeAttribute h nxt name) e = pageNumberOf h e"
  by (simp add: pageNumberOf_def removeAttribute_def getAttribute_def delete_conv' nth_list_update_any)

lemma classList_contains_removeAttribute [simp]:
  "classList_contains (removeAttribute h nxt name) e c = classList_contains h e c"
  by (simp add: classList_contains_def removeAttribute_def nth_list_update_any)

lemma firstElementChild_removeAttribute [simp]:
  "firstElementChild (removeAttribute h nxt name) e = firstElementChild h e"
  by (simp add: firstElementChild_def removeAttribute_def nth_list_update_any)

lemma children_removeAttribute [simp]:
  "children (removeAttribute h nxt name ! e) = children (h ! e)"
  by (simp add: removeAttribute_def nth_list_update_any)

lemma length_removeAttribute [simp]: "length (removeAttribute h nxt name) = length h"
  by (simp add: removeAttribute_def)

text \<open>Evaluations used on the example inputs.\<close>

lemma parseInt_0: "parseInt ''0'' = Some 0"
  unfolding parseInt_def Let_def
  by (simp add: isWhiteSpace_def isDigitOf_def digitValue_def)

lemma parseInt_1: "parseInt ''1'' = Some 1"
  unfolding parseInt_def Let_def
  by (simp add: isWhiteSpace_def isDigitOf_def digitValue_def)

lemma example_parentElement_4: "parentElement example_doc 4 = Some 3"
  by (simp add: parentElement_def example_doc_def example_element_def upt_rec)

lemma example_parentElement_3: "parentElement example_doc 3 = None"
  by (simp add: parentElement_def example_doc_def example_element_def upt_rec)

section \<open>Edit-script execution\<close>

lemma insertBefore_not_Error: "insertBefore h p node child = Inl e \<Longrightarrow> e \<noteq> Error m"
  by (auto simp add: insertBefore_def Let_def split: if_splits)

lemma recoverRemoved_not_Error: "recoverRemoved s e = Inl x \<Longrightarrow> x \<noteq> Error m"
  by (auto simp add: recoverRemoved_def Let_def split: option.splits if_splits)

lemma runInstruction_unknown:
  "op \<noteq> ''insert'' \<Longrightarrow> op \<noteq> ''swap_in'' \<Longrightarrow> op \<noteq> ''remove'' \<Longrightarrow>
   runInstruction s prev (op, off, fr) = Inl (Error (''unknown op '' @ op))"
  by (simp add: runInstruction_def Let_def)

lemma runInstruction_insert_not_Error:
  "runInstruction s prev (''insert'', off, fr) \<noteq> Inl (Error m)"
  by (auto simp add: runInstruction_def Let_def split: fr.splits sum.splits
      dest: insertBefore_not_Error)

lemma runInstruction_swap_in_not_Error:
  "runInstruction s prev (''swap_in'', off, fr) \<noteq> Inl (Error m)"
  by (auto simp add: runInstruction_def Let_def split: option.splits sum.splits
      dest: insertBefore_not_Error)

lemma runInstruction_remove_not_Error:
  "runInstruction s prev (''remove'', off, fr) \<noteq> Inl (Error m)"
  by (auto simp add: runInstruction_def Let_def split: option.splits sum.splits
      dest: recoverRemoved_not_Error)

lemma run_append:
  "runOriginViewInstructionsOnOutline s prev (xs @ ys) =
     (case runOriginViewInstructionsOnOutline s prev xs of
        Inl e \<Rightarrow> Inl e
      | Inr s1 \<Rightarrow> runOriginViewInstructionsOnOutline s1 prev ys)"
  by (induction xs arbitrary: s) (auto split: sum.splits)

lemma patchPairs_append:
  "patchPairs n X s (xs @ ys) =
     (case patchPairs n X s xs of
        None \<Rightarrow> None
      | Some (Inl e) \<Rightarrow> Some (Inl e)
      | Some (Inr s1) \<Rightarrow> patchPairs n X s1 ys)"
  by (induction xs arbitrary: s)
    (auto simp del: reuseOrPatchOutlineElem.simps split: option.splits sum.splits)

lemma toString_1: "toString 1 = ''1''"
  by (simp add: toString_def digits.simps)

lemma spliceLoop_unfold:
  "spliceLoop A s nxt i until =
     (if i < until then
        (if 1 \<le> i \<and> i \<le> int (length (pages s))
         then spliceLoop A (pushCanvas A s nxt (nat (i - 1))) nxt (i + 1) until
         else Inl TypeError)
      else Inr s)"
  by (rule spliceLoop.simps)

lemmas builder_defs =
  example_element_def example_attrs_def
  createElement_def Let_def new_GenElem_def spliceCanvas_def spliceLoop_unfold pushCanvas_def
  tagPatchId_def setAttribute_def classList_add_def set_textContent_def push_def append_node_def
  remove_node_def node_container_def set_style_def addEventListener_def

text \<open>
  C8. runInstruction raises the error "unknown op" exactly for an instruction whose kind
  is none of insert, swap_in and remove. The instructions before it have run, and the
  error ends the loop. An error of the loop is the result of patchOutlineChildren; an
  error of patchOutlineChildren is the result of the call of reuseOrPatchOutlineElem that
  descended into the children; an error of reuseOrPatchOutlineElem ends the loop over the
  pairs and is the result of patchOutlineChildren; and an error of the outermost
  patchOutlineChildren is the result of patchOutlineEntry, which does not reach the loop
  over the pages.
\<close>

theorem unknown_op_aborts:
  "(runInstruction s prev (op, off, fr) = Inl (Error (''unknown op '' @ op)))
      = (op \<notin> {''insert'', ''swap_in'', ''remove''})
   \<and> (op \<notin> {''insert'', ''swap_in'', ''remove''} \<longrightarrow>
        runOriginViewInstructionsOnOutline s prev (before @ (op, off, fr) # rest) =
          (case runOriginViewInstructionsOnOutline s prev before of
             Inl e \<Rightarrow> Inl e
           | Inr s1 \<Rightarrow> Inl (Error (''unknown op '' @ op))))
   \<and> (interpretTargetView X (doc s) (children (doc s ! prev)) (children (doc s ! nxt)) False
            = (tv, toPatch)
        \<and> patchPairs n X s toPatch = Some (Inr s1)
        \<and> runOriginViewInstructionsOnOutline s1 prev
             (changeViewPerspective X (doc s1) (children (doc s1 ! prev)) tv) = Inl e
      \<longrightarrow> patchOutlineChildren n X s prev nxt = Some (Inl e))
   \<and> (interpretTargetView X (doc s) (children (doc s ! prev)) (children (doc s ! nxt)) False
            = (tv, toPatch)
        \<and> patchPairs n X s toPatch = Some (Inl e)
      \<longrightarrow> patchOutlineChildren n X s prev nxt = Some (Inl e))
   \<and> (patchPairs n X s done_pairs = Some (Inr s1)
        \<and> reuseOrPatchOutlineElem n X s1 prevChild nextChild = Some (Inl e)
      \<longrightarrow> patchPairs n X s (done_pairs @ (prevChild, nextChild) # more_pairs) = Some (Inl e))
   \<and> (\<not> equalPatchElem X (doc s) prev nxt
        \<and> \<not> classList_contains (doc s) prev ''typst-page''
        \<and> patchOutlineChildren n X
             (s\<lparr>doc := patchAttributes X
                         (removeAttribute (doc s) nxt (ReuseFrom (patchAttrs X))) prev nxt\<rparr>)
             prev nxt = Some (Inl e)
      \<longrightarrow> reuseOrPatchOutlineElem (Suc n) X s prev nxt = Some (Inl e))
   \<and> (generateOutline (patchAttrs X) h pgs items = Inr ctx
        \<and> children (doc ctx ! prev) \<noteq> []
        \<and> patchOutlineChildren n X ctx prev (gen_container (genElems ctx ! 0)) = Some (Inl e)
      \<longrightarrow> patchOutlineEntry n X h prev pgs items = Some (Inl e))"
proof (intro conjI impI)
  show "(runInstruction s prev (op, off, fr) = Inl (Error (''unknown op '' @ op)))
      = (op \<notin> {''insert'', ''swap_in'', ''remove''})"
    using runInstruction_unknown [of op s prev off fr]
      runInstruction_insert_not_Error [of s prev off fr]
      runInstruction_swap_in_not_Error [of s prev off fr]
      runInstruction_remove_not_Error [of s prev off fr]
    by blast
next
  assume "op \<notin> {''insert'', ''swap_in'', ''remove''}"
  then show "runOriginViewInstructionsOnOutline s prev (before @ (op, off, fr) # rest) =
          (case runOriginViewInstructionsOnOutline s prev before of
             Inl e \<Rightarrow> Inl e
           | Inr s1 \<Rightarrow> Inl (Error (''unknown op '' @ op)))"
    by (simp add: run_append runInstruction_unknown split: sum.splits)
next
  assume "interpretTargetView X (doc s) (children (doc s ! prev)) (children (doc s ! nxt)) False
            = (tv, toPatch)
        \<and> patchPairs n X s toPatch = Some (Inr s1)
        \<and> runOriginViewInstructionsOnOutline s1 prev
             (changeViewPerspective X (doc s1) (children (doc s1 ! prev)) tv) = Inl e"
  then show "patchOutlineChildren n X s prev nxt = Some (Inl e)"
    by simp
next
  assume "interpretTargetView X (doc s) (children (doc s ! prev)) (children (doc s ! nxt)) False
            = (tv, toPatch)
        \<and> patchPairs n X s toPatch = Some (Inl e)"
  then show "patchOutlineChildren n X s prev nxt = Some (Inl e)"
    by simp
next
  assume "patchPairs n X s done_pairs = Some (Inr s1)
        \<and> reuseOrPatchOutlineElem n X s1 prevChild nextChild = Some (Inl e)"
  then show "patchPairs n X s (done_pairs @ (prevChild, nextChild) # more_pairs) = Some (Inl e)"
    by (simp add: patchPairs_append del: reuseOrPatchOutlineElem.simps)
next
  assume "\<not> equalPatchElem X (doc s) prev nxt
        \<and> \<not> classList_contains (doc s) prev ''typst-page''
        \<and> patchOutlineChildren n X
             (s\<lparr>doc := patchAttributes X
                         (removeAttribute (doc s) nxt (ReuseFrom (patchAttrs X))) prev nxt\<rparr>)
             prev nxt = Some (Inl e)"
  then show "reuseOrPatchOutlineElem (Suc n) X s prev nxt = Some (Inl e)"
    by (simp add: Let_def del: patchOutlineChildren.simps)
next
  assume "generateOutline (patchAttrs X) h pgs items = Inr ctx
        \<and> children (doc ctx ! prev) \<noteq> []
        \<and> patchOutlineChildren n X ctx prev (gen_container (genElems ctx ! 0)) = Some (Inl e)"
  then show "patchOutlineEntry n X h prev pgs items = Some (Inl e)"
    by (simp add: patchOutlineEntry_def Let_def del: patchOutlineChildren.simps)
qed

lemma example_generated:
  "generateOutline example_attrs example_prev_doc [] example_items =
     Inr \<lparr>doc =
           [example_element ''div'' [] [] [1],
            example_element ''div'' [] [] [],
            example_element ''div'' [] [] [3],
            example_element ''div''
              [(''data-title'', ''A''), (''data-tid'', ''outline:A''),
               (''data-reuse-from'', ''outline:A''), (''data-bad-equality'', ''1'')]
              [''typst-outline''] [4],
            \<lparr>tagName = ''span'',
               attributes = [(''data-tid'', ''title:A''), (''data-reuse-from'', ''title:A''),
                  (''data-bad-equality'', ''1'')],
               classList = [''typst-outline-title'', ''level-1''],
               textContent = ''A'', style = [], listeners = [], children = []\<rparr>],
          pages = [],
          genElems =
            [\<lparr>gen_children = [GenElemRef 1], gen_container = 2\<rparr>,
             \<lparr>gen_children = [GenElemRef 2], gen_container = 3\<rparr>,
             \<lparr>gen_children = [], gen_container = 4\<rparr>],
          populateCnt = 1, insertionPoint = 1, parent = 0, lastVisit = Some 1,
          populateCntLog = [1, 1, 1]\<rparr>"
  by (simp add: generateOutline_def new_GenContext_def example_prev_doc_def example_items_def
      toString_1 builder_defs)

theorem unknown_op_aborts_witness:
  "runInstruction example_state 0 (''move'', 0, FrUndefined) = Inl (Error ''unknown op move'')
   \<and> runOriginViewInstructionsOnOutline example_state 0
        [(''remove'', 0, FrUndefined), (''move'', 0, FrUndefined), (''remove'', 0, FrUndefined)]
       = Inl (Error ''unknown op move'')
   \<and> (\<exists>ctx. generateOutline (patchAttrs example_svgPatch_move) example_prev_doc [] example_items = Inr ctx
        \<and> children (doc ctx ! 0) = [1] \<and> children (doc ctx ! 2) = [3]
        \<and> gen_container (genElems ctx ! 0) = 2
        \<and> reuseOrPatchOutlineElem 1 example_svgPatch_move ctx 1 3 = Some (Inl (Error ''unknown op move''))
        \<and> patchOutlineChildren 1 example_svgPatch_move ctx 0 2 = Some (Inl (Error ''unknown op move'')))
   \<and> patchOutlineEntry 1 example_svgPatch_move example_prev_doc 0 [] example_items
       = Some (Inl (Error ''unknown op move''))"
proof -
  let ?X = "example_svgPatch_move" and ?e = "Error ''unknown op move''"
  have r: "\<exists>s1. runOriginViewInstructionsOnOutline example_state 0 [(''remove'', 0, FrUndefined)] = Inr s1"
    by (simp add: runInstruction_def example_state_def example_doc_def example_element_def
        example_page_def children_at_def recoverRemoved_def classList_contains_def
        pageNumberOf_def getAttribute_def parseInt_0 pages_at_def)
  have m: "''move'' \<notin> {''insert'', ''swap_in'', ''remove''}" by simp
  have 1: "runInstruction example_state 0 (''move'', 0, FrUndefined) = Inl ?e"
    using unknown_op_aborts [where s = example_state and prev = 0 and op = "''move''"
      and off = 0 and fr = FrUndefined, THEN conjunct1] m
    by simp
  have 2: "runOriginViewInstructionsOnOutline example_state 0
        ([(''remove'', 0, FrUndefined)] @ (''move'', 0, FrUndefined) # [(''remove'', 0, FrUndefined)])
       = (case runOriginViewInstructionsOnOutline example_state 0 [(''remove'', 0, FrUndefined)] of
            Inl e \<Rightarrow> Inl e | Inr s1 \<Rightarrow> Inl (Error (''unknown op '' @ ''move'')))"
    using unknown_op_aborts [where s = example_state and prev = 0 and op = "''move''"
      and off = 0 and fr = FrUndefined and before = "[(''remove'', 0, FrUndefined)]"
      and rest = "[(''remove'', 0, FrUndefined)]", THEN conjunct2, THEN conjunct1] m
    by blast
  from r obtain s1 where "runOriginViewInstructionsOnOutline example_state 0 [(''remove'', 0, FrUndefined)] = Inr s1"
    by blast
  with 2 have 3: "runOriginViewInstructionsOnOutline example_state 0
        [(''remove'', 0, FrUndefined), (''move'', 0, FrUndefined), (''remove'', 0, FrUndefined)]
       = Inl ?e"
    by simp
  have pa: "patchAttrs ?X = example_attrs" by (simp add: example_svgPatch_move_def)
  from example_generated obtain ctx
    where g: "generateOutline (patchAttrs ?X) example_prev_doc [] example_items = Inr ctx"
      and c: "children (doc ctx ! 0) = [1]" "children (doc ctx ! 1) = []"
        "children (doc ctx ! 2) = [3]" "children (doc ctx ! 3) = [4]"
      and k: "\<not> classList_contains (doc ctx) 1 ''typst-page''"
      and root: "gen_container (genElems ctx ! 0) = 2"
      and len: "length (doc ctx) = 5"
    by (simp add: pa example_element_def classList_contains_def)
  define d where "d = patchAttributes ?X (removeAttribute (doc ctx) 3 (ReuseFrom (patchAttrs ?X))) 1 3"
  have d: "d = removeAttribute (doc ctx) 3 (ReuseFrom (patchAttrs ?X))"
    by (simp add: d_def example_svgPatch_move_def)
  have cd: "children (d ! 1) = []" "children (d ! 3) = [4]"
    using c by (simp_all add: d)
  have i4: "interpretTargetView ?X (doc (ctx\<lparr>doc := d\<rparr>)) (children (doc (ctx\<lparr>doc := d\<rparr>) ! 1))
              (children (doc (ctx\<lparr>doc := d\<rparr>) ! 3)) False = ((), [])"
    using cd by (simp add: example_svgPatch_move_def)
  have p4: "patchPairs 0 ?X (ctx\<lparr>doc := d\<rparr>) [] = Some (Inr (ctx\<lparr>doc := d\<rparr>))" by simp
  have v4: "changeViewPerspective ?X (doc (ctx\<lparr>doc := d\<rparr>)) (children (doc (ctx\<lparr>doc := d\<rparr>) ! 1)) ()
              = [] @ (''move'', 0, FrUndefined) # []"
    using cd by (simp add: example_svgPatch_move_def)
  have l4: "runOriginViewInstructionsOnOutline (ctx\<lparr>doc := d\<rparr>) 1
              (changeViewPerspective ?X (doc (ctx\<lparr>doc := d\<rparr>)) (children (doc (ctx\<lparr>doc := d\<rparr>) ! 1)) ())
            = Inl ?e"
    unfolding v4
    using unknown_op_aborts [where s = "ctx\<lparr>doc := d\<rparr>" and prev = 1 and op = "''move''"
      and off = 0 and fr = FrUndefined and before = "[]" and rest = "[]",
      THEN conjunct2, THEN conjunct1] m
    by simp
  have 4: "patchOutlineChildren 0 ?X (ctx\<lparr>doc := d\<rparr>) 1 3 = Some (Inl ?e)"
    using unknown_op_aborts [where X = ?X and s = "ctx\<lparr>doc := d\<rparr>" and prev = 1 and nxt = 3
      and tv = "()" and toPatch = "[]" and n = 0 and ?s1.0 = "ctx\<lparr>doc := d\<rparr>" and e = ?e,
      THEN conjunct2, THEN conjunct2, THEN conjunct1] i4 p4 l4
    by blast
  have o: "\<not> equalPatchElem ?X (doc ctx) 1 3" by (simp add: example_svgPatch_move_def)
  have 5: "reuseOrPatchOutlineElem (Suc 0) ?X ctx 1 3 = Some (Inl ?e)"
    using unknown_op_aborts [where X = ?X and s = ctx and prev = 1 and nxt = 3 and n = 0 and e = ?e,
      THEN conjunct2, THEN conjunct2, THEN conjunct2, THEN conjunct2, THEN conjunct2, THEN conjunct1]
      o k 4 [unfolded d_def]
    by blast
  have 6: "patchPairs (Suc 0) ?X ctx ([] @ (1, 3) # []) = Some (Inl ?e)"
    using unknown_op_aborts [where X = ?X and s = ctx and n = "Suc 0" and done_pairs = "[]"
      and ?s1.0 = ctx and prevChild = 1 and nextChild = 3 and more_pairs = "[]" and e = ?e,
      THEN conjunct2, THEN conjunct2, THEN conjunct2, THEN conjunct2, THEN conjunct1] 5
    by simp
  have i7: "interpretTargetView ?X (doc ctx) (children (doc ctx ! 0)) (children (doc ctx ! 2)) False
              = ((), [(1, 3)])"
    using c by (simp add: example_svgPatch_move_def)
  have 7: "patchOutlineChildren (Suc 0) ?X ctx 0 2 = Some (Inl ?e)"
    using unknown_op_aborts [where X = ?X and s = ctx and prev = 0 and nxt = 2
      and tv = "()" and toPatch = "[(1, 3)]" and n = "Suc 0" and e = ?e,
      THEN conjunct2, THEN conjunct2, THEN conjunct2, THEN conjunct1] i7 6
    by simp
  have 8: "patchOutlineEntry (Suc 0) ?X example_prev_doc 0 [] example_items = Some (Inl ?e)"
    using unknown_op_aborts [where X = ?X and h = example_prev_doc and pgs = "[]"
      and items = example_items and ctx = ctx and prev = 0 and n = "Suc 0" and e = ?e,
      THEN conjunct2, THEN conjunct2, THEN conjunct2, THEN conjunct2, THEN conjunct2, THEN conjunct2]
      g c(1) 7 [folded root]
    by simp
  show ?thesis
    using 1 3 g c(1,3) root 5 7 8 by (auto simp del: reuseOrPatchOutlineElem.simps patchOutlineChildren.simps)
qed

lemma recoverRemoved_in_range:
  "classList_contains (doc s) e ''typst-page'' \<Longrightarrow> pageNumberOf (doc s) e = Some n \<Longrightarrow>
   0 \<le> n \<Longrightarrow> n < int (length (pages s)) \<Longrightarrow>
   recoverRemoved s e =
     Inr (s\<lparr>pages := (pages s)[nat n := (pages s ! nat n)
            \<lparr>container := e, elem := firstElementChild (doc s) e\<rparr>]\<rparr>)"
  by (simp add: recoverRemoved_def pages_at_def)

lemma recoverRemoved_beyond:
  "pageNumberOf (doc s) e = Some n \<Longrightarrow> int (length (pages s)) \<le> n \<Longrightarrow> recoverRemoved s e = Inr s"
  by (simp add: recoverRemoved_def)

lemma runInstruction_remove:
  "children_at (doc s) prev off = Some e \<Longrightarrow>
   runInstruction s prev (''remove'', off, fr) =
     (case recoverRemoved s e of Inl x \<Rightarrow> Inl x
      | Inr s1 \<Rightarrow> Inr (s1\<lparr>doc := remove_node (doc s1) e\<rparr>))"
  by (simp add: runInstruction_def)

lemma example_child_0: "children_at example_doc 0 0 = Some 2"
  by (simp add: children_at_def example_doc_def example_element_def)

lemma example_is_page_2: "classList_contains example_doc 2 ''typst-page''"
  by (simp add: classList_contains_def example_doc_def example_element_def)

lemma example_pageNumberOf_2: "pageNumberOf example_doc 2 = Some 0"
  by (simp add: pageNumberOf_def getAttribute_def example_doc_def example_element_def parseInt_0)

lemma example_pageNumberOf_4: "pageNumberOf example_doc 4 = Some 0"
  by (simp add: pageNumberOf_def getAttribute_def example_doc_def example_element_def parseInt_0)

lemma example_last_doc:
  "doc example_state_last =
     [example_element ''div'' [] [] [2],
      example_element ''canvas'' [] [] [],
      example_element ''div'' [(''data-page-number'', ''1'')] [''typst-page''] [1],
      example_element ''div'' [] [] [4],
      example_element ''div'' [(''data-tid'', ''canvas:0''), (''data-page-number'', ''0'')] [] [],
      example_element ''div'' [] [''typst-page''] [6],
      example_element ''canvas'' [] [] []]"
  by (simp add: example_state_last_def example_state_def example_doc_def setAttribute_def
      example_element_def)

text \<open>
  C3, as stated, fails on the last index of the range it names. With one page (P = 1)
  and a removed page node that carries the page number 1, the node is detached and no
  page object changes: the container of the only page is still element 5, not the
  removed node 2.
\<close>

theorem remove_last_index_not_recovered:
  "length (pages example_state_last) = 1
   \<and> children_at (doc example_state_last) 0 0 = Some 2
   \<and> classList_contains (doc example_state_last) 2 ''typst-page''
   \<and> pageNumberOf (doc example_state_last) 2 = Some 1
   \<and> runInstruction example_state_last 0 (''remove'', 0, FrUndefined)
       = Inr (example_state_last\<lparr>doc := remove_node (doc example_state_last) 2\<rparr>)
   \<and> map container (pages (example_state_last\<lparr>doc := remove_node (doc example_state_last) 2\<rparr>)) = [5]"
proof -
  have p: "pages example_state_last = [example_page]"
    by (simp add: example_state_last_def example_state_def)
  have c: "children_at (doc example_state_last) 0 0 = Some 2"
    by (simp add: example_last_doc children_at_def example_element_def)
  have k: "classList_contains (doc example_state_last) 2 ''typst-page''"
    by (simp add: example_last_doc classList_contains_def example_element_def)
  have n: "pageNumberOf (doc example_state_last) 2 = Some 1"
    by (simp add: example_last_doc pageNumberOf_def getAttribute_def example_element_def parseInt_1)
  have r: "recoverRemoved example_state_last 2 = Inr example_state_last"
    using n p by (simp add: recoverRemoved_beyond)
  show ?thesis
    using p c k n r by (simp add: runInstruction_remove example_page_def)
qed

text \<open>
  C3, amended. The page number n that a removed page node carries is a position in the
  array of pages, counted from 0. When 0 \<le> n < P, the page object at position n gets
  the removed node as container and the node's first element child as elem, both read
  before the node is detached. When n \<ge> P, no page object changes and the node is
  detached without an error.
\<close>

theorem remove_recovers_page:
  assumes "children_at (doc s) prev off = Some e"
    and "classList_contains (doc s) e ''typst-page''"
    and "pageNumberOf (doc s) e = Some n"
  shows "(0 \<le> n \<and> n < int (length (pages s)) \<longrightarrow>
            runInstruction s prev (''remove'', off, fr) =
              Inr (s\<lparr>pages := (pages s)[nat n := (pages s ! nat n)
                       \<lparr>container := e, elem := firstElementChild (doc s) e\<rparr>],
                     doc := remove_node (doc s) e\<rparr>))
       \<and> (int (length (pages s)) \<le> n \<longrightarrow>
            runInstruction s prev (''remove'', off, fr) = Inr (s\<lparr>doc := remove_node (doc s) e\<rparr>))"
  using assms
  by (simp add: runInstruction_remove recoverRemoved_in_range recoverRemoved_beyond)

theorem remove_recovers_page_witness:
  "runInstruction example_state 0 (''remove'', 0, FrUndefined) =
     Inr (example_state\<lparr>pages := [example_page\<lparr>container := 2, elem := Some 1\<rparr>],
                        doc := remove_node example_doc 2\<rparr>)
   \<and> runInstruction example_state_shrunk 0 (''remove'', 0, FrUndefined) =
     Inr (example_state_shrunk\<lparr>doc := remove_node example_doc 2\<rparr>)"
proof -
  have d: "doc example_state = example_doc" "pages example_state = [example_page]"
    "doc example_state_shrunk = example_doc" "pages example_state_shrunk = []"
    by (simp_all add: example_state_shrunk_def example_state_def)
  have f: "firstElementChild example_doc 2 = Some 1"
    by (simp add: firstElementChild_def example_doc_def example_element_def)
  have c: "children_at (doc example_state) 0 0 = Some 2"
    and k: "classList_contains (doc example_state) 2 ''typst-page''"
    and n: "pageNumberOf (doc example_state) 2 = Some 0"
    by (simp_all add: d example_child_0 example_is_page_2 example_pageNumberOf_2)
  have c': "children_at (doc example_state_shrunk) 0 0 = Some 2"
    and k': "classList_contains (doc example_state_shrunk) 2 ''typst-page''"
    and n': "pageNumberOf (doc example_state_shrunk) 2 = Some 0"
    by (simp_all add: d example_child_0 example_is_page_2 example_pageNumberOf_2)
  have 1: "runInstruction example_state 0 (''remove'', 0, FrUndefined) =
     Inr (example_state\<lparr>pages := [example_page\<lparr>container := 2, elem := Some 1\<rparr>],
                        doc := remove_node example_doc 2\<rparr>)"
    using remove_recovers_page [OF c k n, of FrUndefined]
    by (simp add: d f)
  have 2: "runInstruction example_state_shrunk 0 (''remove'', 0, FrUndefined) =
     Inr (example_state_shrunk\<lparr>doc := remove_node example_doc 2\<rparr>)"
    using remove_recovers_page [OF c' k' n', of FrUndefined]
    by (simp add: d)
  from 1 2 show ?thesis by simp
qed

section \<open>The reuse decision\<close>

lemma rebindReused_in_range:
  "pageNumberOf (doc s) nxt = Some i \<Longrightarrow> 0 \<le> i \<Longrightarrow> i < int (length (pages s)) \<Longrightarrow>
   rebindReused s prev nxt =
     Inr (s\<lparr>pages := (pages s)[nat i := (pages s ! nat i)
            \<lparr>inserter := Some PoisionCanvasMoved, container := prev,
             elem := firstElementChild (doc s) prev\<rparr>]\<rparr>)"
  by (simp add: rebindReused_def pages_at_def)

lemma reuse_page:
  assumes "equalPatchElem X (doc s) prev nxt"
    and "classList_contains (doc s) prev ''typst-page''"
    and "pageNumberOf (doc s) nxt = Some i" and "0 \<le> i" and "i < int (length (pages s))"
    and "ReuseFrom (patchAttrs X) \<noteq> ''data-page-number''"
  shows "reuseOrPatchOutlineElem n X s prev nxt =
     Some (Inr (True,
       s\<lparr>doc := removeAttribute (doc s) nxt (ReuseFrom (patchAttrs X)),
         pages := (pages s)[nat i := (pages s ! nat i)
            \<lparr>inserter := Some PoisionCanvasMoved, container := prev,
             elem := firstElementChild (doc s) prev\<rparr>]\<rparr>))"
  using assms
  by (simp add: Let_def rebindReused_in_range pageNumberOf_removeAttribute)

lemma example_oracle_2_4: "equalPatchElem example_svgPatch example_doc 2 4"
  by (simp add: example_svgPatch_def getAttribute_def example_doc_def example_element_def)









text \<open>
  C6. When the previous element is not a page element, the attribute patcher is applied
  to the pair (after the target has lost its reuse-from attribute), whatever the
  verdict of the oracle: the patched document is the one returned on a reuse and the one
  the descent into the children starts from otherwise. When the previous element is a
  page element, the only change to the document is the removal of the reuse-from
  attribute of the target, so the previous element keeps every attribute.
\<close>

theorem attributes_patched_unless_page:
  "(\<not> classList_contains (doc s) prev ''typst-page'' \<longrightarrow>
      reuseOrPatchOutlineElem n X s prev nxt =
        (let s1 = s\<lparr>doc := patchAttributes X
                      (removeAttribute (doc s) nxt (ReuseFrom (patchAttrs X))) prev nxt\<rparr>
         in if equalPatchElem X (doc s) prev nxt then Some (Inr (True, s1))
            else (case n of
                    0 \<Rightarrow> None
                  | Suc m \<Rightarrow>
                      (case patchOutlineChildren m X s1 prev nxt of
                         None \<Rightarrow> None
                       | Some (Inl e) \<Rightarrow> Some (Inl e)
                       | Some (Inr s2) \<Rightarrow> Some (Inr (False, s2))))))
   \<and> (classList_contains (doc s) prev ''typst-page'' \<and> prev \<noteq> nxt \<longrightarrow>
        (\<exists>r. reuseOrPatchOutlineElem n X s prev nxt = Some r \<and>
           (case r of
              Inl e \<Rightarrow> e = TypeError
            | Inr (reused, s') \<Rightarrow>
                reused = equalPatchElem X (doc s) prev nxt
                \<and> doc s' = removeAttribute (doc s) nxt (ReuseFrom (patchAttrs X))
                \<and> doc s' ! prev = doc s ! prev)))"
proof (intro conjI impI)
  assume "\<not> classList_contains (doc s) prev ''typst-page''"
  then show "reuseOrPatchOutlineElem n X s prev nxt =
        (let s1 = s\<lparr>doc := patchAttributes X
                      (removeAttribute (doc s) nxt (ReuseFrom (patchAttrs X))) prev nxt\<rparr>
         in if equalPatchElem X (doc s) prev nxt then Some (Inr (True, s1))
            else (case n of
                    0 \<Rightarrow> None
                  | Suc m \<Rightarrow>
                      (case patchOutlineChildren m X s1 prev nxt of
                         None \<Rightarrow> None
                       | Some (Inl e) \<Rightarrow> Some (Inl e)
                       | Some (Inr s2) \<Rightarrow> Some (Inr (False, s2)))))"
    by (simp add: Let_def split: nat.splits)
next
  assume a: "classList_contains (doc s) prev ''typst-page'' \<and> prev \<noteq> nxt"
  then have k: "removeAttribute (doc s) nxt (ReuseFrom (patchAttrs X)) ! prev = doc s ! prev"
    by (simp add: removeAttribute_def)
  show "\<exists>r. reuseOrPatchOutlineElem n X s prev nxt = Some r \<and>
           (case r of
              Inl e \<Rightarrow> e = TypeError
            | Inr (reused, s') \<Rightarrow>
                reused = equalPatchElem X (doc s) prev nxt
                \<and> doc s' = removeAttribute (doc s) nxt (ReuseFrom (patchAttrs X))
                \<and> doc s' ! prev = doc s ! prev)"
    using a k by (simp add: Let_def rebindReused_def split: option.splits)
qed

theorem attributes_patched_unless_page_witness:
  "reuseOrPatchOutlineElem 0 example_svgPatch example_state 0 3 =
     Some (Inr (True, example_state\<lparr>doc := patchAttributes example_svgPatch
                      (removeAttribute example_doc 3 ''data-reuse-from'') 0 3\<rparr>))
   \<and> (\<exists>s'. reuseOrPatchOutlineElem 0 example_svgPatch example_state 2 4 = Some (Inr (True, s'))
         \<and> doc s' ! 2 = example_doc ! 2)"
proof -
  have d: "doc example_state = example_doc" "pages example_state = [example_page]"
    by (simp_all add: example_state_def)
  have n0: "\<not> classList_contains (doc example_state) 0 ''typst-page''"
    by (simp add: d classList_contains_def example_doc_def example_element_def)
  have o: "equalPatchElem example_svgPatch (doc example_state) 0 3"
    by (simp add: d example_svgPatch_def getAttribute_def example_doc_def example_element_def)
  have rf: "ReuseFrom (patchAttrs example_svgPatch) = ''data-reuse-from''"
    by (simp add: example_svgPatch_def example_attrs_def)
  have 1: "reuseOrPatchOutlineElem 0 example_svgPatch example_state 0 3 =
     Some (Inr (True, example_state\<lparr>doc := patchAttributes example_svgPatch
                      (removeAttribute example_doc 3 ''data-reuse-from'') 0 3\<rparr>))"
    using attributes_patched_unless_page
      [where s = example_state and prev = 0 and nxt = 3 and n = 0 and X = example_svgPatch,
        THEN conjunct1, rule_format, OF n0] o
    by (simp add: d rf Let_def)
  have k: "classList_contains (doc example_state) 2 ''typst-page'' \<and> (2::nat) \<noteq> 4"
    by (simp add: d example_is_page_2)
  have o2: "equalPatchElem example_svgPatch (doc example_state) 2 4"
    by (simp add: d example_oracle_2_4)
  have n: "pageNumberOf (doc example_state) 4 = Some 0"
    by (simp add: d example_pageNumberOf_4)
  have 2: "\<exists>r. reuseOrPatchOutlineElem 0 example_svgPatch example_state 2 4 = Some r \<and>
           (case r of
              Inl e \<Rightarrow> e = TypeError
            | Inr (reused, s') \<Rightarrow>
                reused = equalPatchElem example_svgPatch (doc example_state) 2 4
                \<and> doc s' = removeAttribute (doc example_state) 4 (ReuseFrom (patchAttrs example_svgPatch))
                \<and> doc s' ! 2 = doc example_state ! 2)"
    using attributes_patched_unless_page
      [where s = example_state and prev = 2 and nxt = 4 and n = 0 and X = example_svgPatch,
        THEN conjunct2, rule_format, OF k] .
  have 3: "\<exists>s'. reuseOrPatchOutlineElem 0 example_svgPatch example_state 2 4 = Some (Inr (True, s'))"
    using reuse_page [OF o2 conjunct1 [OF k] n, of 0]
    by (simp add: d rf)
  from 2 3 have "\<exists>s'. reuseOrPatchOutlineElem 0 example_svgPatch example_state 2 4 = Some (Inr (True, s'))
         \<and> doc s' ! 2 = example_doc ! 2"
    by (auto simp add: d)
  with 1 show ?thesis by simp
qed

section \<open>The default inserter\<close>

text \<open>
  C10. replaceStubToRealCanvas raises a TypeError on a page without a stub. On a page
  whose stub is a child of an element p (the container neither containing p nor being
  a child of p already), it puts the container in the place of the stub among the
  children of p and clears the stub field, so a second call on the same page raises a
  TypeError.
\<close>

theorem default_inserter_once:
  "(stub (pages s ! t) = None \<longrightarrow> replaceStubToRealCanvas s t = Inl TypeError)
   \<and> (t < length (pages s) \<and> stub (pages s ! t) = Some stb \<and> parentElement (doc s) stb = Some p
        \<and> \<not> inclusiveAncestor (length (doc s)) (doc s) (container (pages s ! t)) p
        \<and> distinct (children (doc s ! p)) \<and> container (pages s ! t) \<notin> set (children (doc s ! p))
      \<longrightarrow> (\<exists>s'. replaceStubToRealCanvas s t = Inr s'
              \<and> children (doc s' ! p) =
                  map (\<lambda>x. if x = stb then container (pages s ! t) else x) (children (doc s ! p))
              \<and> stub (pages s' ! t) = None
              \<and> replaceStubToRealCanvas s' t = Inl TypeError))"
proof (intro conjI impI)
  assume "stub (pages s ! t) = None"
  then show "replaceStubToRealCanvas s t = Inl TypeError"
    by (simp add: replaceStubToRealCanvas_def)
next
  assume a: "t < length (pages s) \<and> stub (pages s ! t) = Some stb \<and> parentElement (doc s) stb = Some p
        \<and> \<not> inclusiveAncestor (length (doc s)) (doc s) (container (pages s ! t)) p
        \<and> distinct (children (doc s ! p)) \<and> container (pages s ! t) \<notin> set (children (doc s ! p))"
  then obtain d where d: "replaceWith (doc s) stb (container (pages s ! t)) = Inr d"
    and ch: "children (d ! p) = map (\<lambda>x. if x = stb then container (pages s ! t) else x) (children (doc s ! p))"
    using replaceWith_children [of "doc s" stb p "container (pages s ! t)"] by auto
  let ?s' = "s\<lparr>doc := d, pages := (pages s)[t := (pages s ! t)\<lparr>stub := None\<rparr>]\<rparr>"
  have 1: "replaceStubToRealCanvas s t = Inr ?s'"
    using a d by (simp add: replaceStubToRealCanvas_def)
  have 2: "stub (pages ?s' ! t) = None" using a by simp
  have 3: "replaceStubToRealCanvas ?s' t = Inl TypeError"
    using 2 by (simp add: replaceStubToRealCanvas_def)
  show "\<exists>s'. replaceStubToRealCanvas s t = Inr s'
              \<and> children (doc s' ! p) =
                  map (\<lambda>x. if x = stb then container (pages s ! t) else x) (children (doc s ! p))
              \<and> stub (pages s' ! t) = None
              \<and> replaceStubToRealCanvas s' t = Inl TypeError"
    using 1 2 3 ch by (intro exI [of _ ?s']) simp
qed

theorem default_inserter_once_witness:
  "\<exists>s'. replaceStubToRealCanvas example_state 0 = Inr s'
       \<and> children (doc s' ! 3) = [5]
       \<and> stub (pages s' ! 0) = None
       \<and> replaceStubToRealCanvas s' 0 = Inl TypeError"
proof -
  have d: "doc example_state = example_doc" "pages example_state = [example_page]"
    by (simp_all add: example_state_def)
  have c: "children (example_doc ! 3) = [4]"
    by (simp add: example_doc_def example_element_def)
  have a: "\<not> inclusiveAncestor (length example_doc) example_doc 5 3"
    by (simp add: inclusiveAncestor_root example_parentElement_3)
  show ?thesis
    using default_inserter_once [where s = example_state and t = 0 and stb = 4 and p = 3,
        THEN conjunct2] a
    by (simp add: d c example_page_def example_parentElement_4)
qed

section \<open>The target-tree builder: document order and the rightmost path\<close>

lemma preorders_append:
  "preorders n d (as @ bs) =
     (case preorders n d as of None \<Rightarrow> None
      | Some z1 \<Rightarrow> (case preorders n d bs of None \<Rightarrow> None | Some z2 \<Rightarrow> Some (z1 @ z2)))"
  by (induction as) (auto split: option.splits)

lemma preorders_step:
  assumes "\<And>r xs. preorder n d r = Some xs \<Longrightarrow> preorder (Suc n) d r = Some xs"
  shows "preorders n d cs = Some ys \<Longrightarrow> preorders (Suc n) d cs = Some ys"
proof (induction cs arbitrary: ys)
  case Nil
  then show ?case by simp
next
  case (Cons c cs)
  from Cons.prems obtain x1 x2 where 1: "preorder n d c = Some x1" and 2: "preorders n d cs = Some x2"
    and ys: "ys = x1 @ x2"
    by (auto split: option.splits)
  from assms [OF 1] Cons.IH [OF 2] ys show ?case
    by (simp del: preorder.simps)
qed

lemma preorder_mono_aux: "preorder n d r = Some xs \<Longrightarrow> preorder (Suc n) d r = Some xs"
proof (induction n arbitrary: r xs)
  case 0
  then show ?case by simp
next
  case (Suc n)
  from Suc.prems obtain zs where 1: "preorders n d (children (d ! r)) = Some zs" and xs: "xs = r # zs"
    by (auto split: option.splits)
  have "preorders (Suc n) d (children (d ! r)) = Some zs"
    using preorders_step [of n d, OF Suc.IH 1] .
  then show ?case using xs by simp
qed

lemma preorders_mono_aux: "preorders n d cs = Some ys \<Longrightarrow> preorders (Suc n) d cs = Some ys"
  using preorders_step [of n d cs ys] preorder_mono_aux by blast

lemma preorder_mono: "preorder n d r = Some xs \<Longrightarrow> n \<le> m \<Longrightarrow> preorder m d r = Some xs"
  by (induction m) (auto simp add: le_Suc_eq preorder_mono_aux simp del: preorder.simps)

lemma preorders_mono: "preorders n d cs = Some ys \<Longrightarrow> n \<le> m \<Longrightarrow> preorders m d cs = Some ys"
  by (induction m) (auto simp add: le_Suc_eq preorders_mono_aux simp del: preorders.simps)

lemma preorder_SucE:
  "preorder n d r = Some xs \<Longrightarrow>
   \<exists>m zs. n = Suc m \<and> preorders m d (children (d ! r)) = Some zs \<and> xs = r # zs"
  by (cases n) (auto split: option.splits)

lemma preorders_ConsE:
  "preorders n d (c # cs) = Some ys \<Longrightarrow>
   \<exists>x1 x2. preorder n d c = Some x1 \<and> preorders n d cs = Some x2 \<and> ys = x1 @ x2"
  by (auto split: option.splits)

lemma preorders_appendE:
  "preorders n d (as @ bs) = Some ys \<Longrightarrow>
   \<exists>z1 z2. preorders n d as = Some z1 \<and> preorders n d bs = Some z2 \<and> ys = z1 @ z2"
  by (auto simp add: preorders_append split: option.splits)

text \<open>The traversal reads only the child lists of the nodes it visits.\<close>

lemma preorder_frame_aux:
  "(\<forall>r xs. preorder n d r = Some xs \<longrightarrow> (\<forall>x \<in> set xs. children (d' ! x) = children (d ! x))
        \<longrightarrow> preorder n d' r = Some xs)
   \<and> (\<forall>cs ys. preorders n d cs = Some ys \<longrightarrow> (\<forall>x \<in> set ys. children (d' ! x) = children (d ! x))
        \<longrightarrow> preorders n d' cs = Some ys)"
proof (induction n)
  case 0
  have "\<And>cs ys. preorders 0 d cs = Some ys \<Longrightarrow> preorders 0 d' cs = Some ys"
  proof -
    fix cs ys show "preorders 0 d cs = Some ys \<Longrightarrow> preorders 0 d' cs = Some ys"
      by (induction cs arbitrary: ys) auto
  qed
  then show ?case by simp
next
  case (Suc n)
  have a: "\<And>r xs. preorder (Suc n) d r = Some xs \<Longrightarrow> (\<forall>x \<in> set xs. children (d' ! x) = children (d ! x))
        \<Longrightarrow> preorder (Suc n) d' r = Some xs"
  proof -
    fix r xs
    assume p: "preorder (Suc n) d r = Some xs" and f: "\<forall>x \<in> set xs. children (d' ! x) = children (d ! x)"
    from p obtain zs where 1: "preorders n d (children (d ! r)) = Some zs" and xs: "xs = r # zs"
      by (auto split: option.splits)
    from f xs have "children (d' ! r) = children (d ! r)" by simp
    moreover from Suc 1 f xs have "preorders n d' (children (d ! r)) = Some zs" by simp
    ultimately show "preorder (Suc n) d' r = Some xs" using xs by simp
  qed
  have b: "\<And>cs ys. preorders (Suc n) d cs = Some ys \<Longrightarrow> (\<forall>x \<in> set ys. children (d' ! x) = children (d ! x))
        \<Longrightarrow> preorders (Suc n) d' cs = Some ys"
  proof -
    fix cs ys
    show "preorders (Suc n) d cs = Some ys \<Longrightarrow> (\<forall>x \<in> set ys. children (d' ! x) = children (d ! x))
        \<Longrightarrow> preorders (Suc n) d' cs = Some ys"
    proof (induction cs arbitrary: ys)
      case Nil
      then show ?case by simp
    next
      case (Cons c cs)
      from Cons.prems(1) obtain x1 x2 where 1: "preorder (Suc n) d c = Some x1"
        and 2: "preorders (Suc n) d cs = Some x2" and ys: "ys = x1 @ x2"
        by (blast dest: preorders_ConsE)
      have "preorder (Suc n) d' c = Some x1" using a [OF 1] Cons.prems(2) ys by simp
      moreover have "preorders (Suc n) d' cs = Some x2" using Cons.IH [OF 2] Cons.prems(2) ys by simp
      ultimately show ?case using ys by (simp del: preorder.simps)
    qed
  qed
  from a b show ?case by blast
qed

lemma preorder_frame:
  "preorder n d r = Some xs \<Longrightarrow> (\<And>x. x \<in> set xs \<Longrightarrow> children (d' ! x) = children (d ! x))
     \<Longrightarrow> preorder n d' r = Some xs"
  using preorder_frame_aux [of n d d'] by blast

lemma preorders_frame:
  "preorders n d cs = Some ys \<Longrightarrow> (\<And>x. x \<in> set ys \<Longrightarrow> children (d' ! x) = children (d ! x))
     \<Longrightarrow> preorders n d' cs = Some ys"
  using preorder_frame_aux [of n d d'] by blast

text \<open>A traversal holds its root, and the children of every node it holds.\<close>

lemma preorder_root: "preorder n d r = Some xs \<Longrightarrow> r \<in> set xs"
  by (auto dest: preorder_SucE)

lemma preorders_roots: "preorders n d cs = Some ys \<Longrightarrow> set cs \<subseteq> set ys"
proof (induction cs arbitrary: ys)
  case Nil
  then show ?case by simp
next
  case (Cons c cs)
  from Cons.prems obtain x1 x2 where 1: "preorder n d c = Some x1"
    and 2: "preorders n d cs = Some x2" and ys: "ys = x1 @ x2"
    by (blast dest: preorders_ConsE)
  from preorder_root [OF 1] Cons.IH [OF 2] ys show ?case by auto
qed

lemma spine_target: "spine d r p x \<Longrightarrow> preorder n d r = Some xs \<Longrightarrow> x \<in> set xs \<and> set p \<subseteq> set xs"
proof (induction arbitrary: n xs rule: spine.induct)
  case (here d x)
  then show ?case by (auto dest: preorder_root)
next
  case (down d r p x)
  from down.prems obtain m zs where n: "n = Suc m" and 1: "preorders m d (children (d ! r)) = Some zs"
    and xs: "xs = r # zs"
    by (auto dest: preorder_SucE)
  from down.hyps(1) have cs: "children (d ! r) = butlast (children (d ! r)) @ [last (children (d ! r))]"
    by simp
  from 1 cs obtain z1 z2 where 2: "preorders m d [last (children (d ! r))] = Some z2" and zs: "zs = z1 @ z2"
    by (metis preorders_appendE)
  from 2 have "preorder m d (last (children (d ! r))) = Some z2"
    by (auto split: option.splits)
  from down.IH [OF this] xs zs show ?case by auto
qed

lemma spine_frame:
  "spine d r p x \<Longrightarrow> (\<And>y. y \<in> set p \<Longrightarrow> children (d' ! y) = children (d ! y)) \<Longrightarrow> spine d' r p x"
proof (induction rule: spine.induct)
  case (here d x)
  show ?case by (rule spine.here)
next
  case (down d r p x)
  have "children (d' ! r) = children (d ! r)" using down.prems by simp
  with down show ?case by (auto intro: spine.down)
qed

lemma spine_snoc:
  "spine d r p x \<Longrightarrow> children (d ! x) \<noteq> [] \<Longrightarrow> spine d r (p @ [x]) (last (children (d ! x)))"
  by (induction rule: spine.induct) (auto intro: spine.intros)

lemma spine_butlast:
  "spine d r q y \<Longrightarrow> q = p @ [x] \<Longrightarrow>
     spine d r p x \<and> children (d ! x) \<noteq> [] \<and> last (children (d ! x)) = y"
proof (induction arbitrary: p rule: spine.induct)
  case (here d x)
  then show ?case by simp
next
  case (down d r q y)
  show ?case
  proof (cases p)
    case Nil
    with down.prems have q: "q = []" and r: "r = x" by simp_all
    from down.hyps(2) q have "last (children (d ! r)) = y" by (auto elim: spine.cases)
    with down.hyps(1) r Nil show ?thesis by (auto intro: spine.here)
  next
    case (Cons a p')
    with down.prems have "q = p' @ [x]" and "a = r" by simp_all
    with down.IH [of p'] down.hyps(1) Cons show ?thesis by (auto intro: spine.down)
  qed
qed

text \<open>
  Appending a subtree below a node of the rightmost path appends its traversal to the
  traversal of the whole tree.
\<close>

lemma preorder_append_spine:
  assumes "spine d r p x"
    and "preorder n d r = Some xs"
    and "distinct xs"
    and "\<And>q. q \<in> set xs \<Longrightarrow> q \<noteq> x \<Longrightarrow> children (d' ! q) = children (d ! q)"
    and "children (d' ! x) = children (d ! x) @ [c]"
    and "preorder m d' c = Some ys"
  shows "\<exists>k. preorder k d' r = Some (xs @ ys)"
  using assms
proof (induction arbitrary: n xs rule: spine.induct)
  case (here d x)
  from here.prems(1) obtain n' zs where n: "n = Suc n'"
    and 1: "preorders n' d (children (d ! x)) = Some zs" and xs: "xs = x # zs"
    by (auto dest: preorder_SucE)
  from here.prems(2) xs have nx: "x \<notin> set zs" by simp
  have 2: "preorders n' d' (children (d ! x)) = Some zs"
    using 1 here.prems(3) xs nx by (intro preorders_frame [OF 1]) auto
  let ?k = "max n' m"
  have "preorders ?k d' (children (d ! x)) = Some zs" using 2 by (rule preorders_mono) simp
  moreover have "preorder ?k d' c = Some ys" using here.prems(5) by (rule preorder_mono) simp
  ultimately have "preorders ?k d' (children (d ! x) @ [c]) = Some (zs @ ys)"
    by (simp add: preorders_append del: preorder.simps)
  then have "preorder (Suc ?k) d' x = Some (xs @ ys)"
    using here.prems(4) xs by simp
  then show ?case by blast
next
  case (down d r p x)
  from down.prems(1) obtain n' zs where n: "n = Suc n'"
    and 1: "preorders n' d (children (d ! r)) = Some zs" and xs: "xs = r # zs"
    by (auto dest: preorder_SucE)
  let ?l = "last (children (d ! r))"
  from down.hyps(1) have cs: "children (d ! r) = butlast (children (d ! r)) @ [?l]"
    by simp
  from 1 cs obtain z1 z2 where 2: "preorders n' d (butlast (children (d ! r))) = Some z1"
    and 3: "preorders n' d [?l] = Some z2" and zs: "zs = z1 @ z2"
    by (metis preorders_appendE)
  from 3 have 4: "preorder n' d ?l = Some z2" by (auto split: option.splits)
  from spine_target [OF down.hyps(2) 4] have xz: "x \<in> set z2" by simp
  from down.prems(2) xs zs xz have nx1: "x \<notin> set z1" and nxr: "x \<noteq> r" by auto
  have r': "children (d' ! r) = children (d ! r)"
    using down.prems(3) [of r] xs nxr by simp
  have 5: "preorders n' d' (butlast (children (d ! r))) = Some z1"
    using nx1 xs zs down.prems(3) by (intro preorders_frame [OF 2]) auto
  have "\<exists>k. preorder k d' ?l = Some (z2 @ ys)"
    using down.prems(2,3) xs zs
    by (intro down.IH [OF 4 _ _ down.prems(4) down.prems(5)]) auto
  then obtain k where 6: "preorder k d' ?l = Some (z2 @ ys)" by blast
  let ?k = "max n' k"
  have "preorders ?k d' (butlast (children (d ! r))) = Some z1" using 5 by (rule preorders_mono) simp
  moreover have "preorder ?k d' ?l = Some (z2 @ ys)" using 6 by (rule preorder_mono) simp
  ultimately have "preorders ?k d' (butlast (children (d ! r)) @ [?l]) = Some (z1 @ z2 @ ys)"
    by (simp add: preorders_append del: preorder.simps)
  with cs have "preorders ?k d' (children (d ! r)) = Some (z1 @ z2 @ ys)" by simp
  then have "preorder (Suc ?k) d' r = Some (xs @ ys)"
    using r' xs zs by simp
  then show ?case by blast
qed

lemma preorder_closed_aux:
  "(\<forall>r xs. preorder n d r = Some xs \<longrightarrow> (\<forall>x \<in> set xs. set (children (d ! x)) \<subseteq> set xs))
   \<and> (\<forall>cs ys. preorders n d cs = Some ys \<longrightarrow> (\<forall>x \<in> set ys. set (children (d ! x)) \<subseteq> set ys))"
proof (induction n)
  case 0
  have "\<And>cs ys. preorders 0 d cs = Some ys \<Longrightarrow> ys = []"
  proof -
    fix cs ys show "preorders 0 d cs = Some ys \<Longrightarrow> ys = []"
      by (cases cs) auto
  qed
  then show ?case by fastforce
next
  case (Suc n)
  have a: "\<And>r xs. preorder (Suc n) d r = Some xs \<Longrightarrow> (\<forall>x \<in> set xs. set (children (d ! x)) \<subseteq> set xs)"
  proof -
    fix r xs
    assume p: "preorder (Suc n) d r = Some xs"
    then obtain zs where 1: "preorders n d (children (d ! r)) = Some zs" and xs: "xs = r # zs"
      by (auto split: option.splits)
    from Suc 1 have "\<forall>x \<in> set zs. set (children (d ! x)) \<subseteq> set zs" by blast
    moreover from preorders_roots [OF 1] have "set (children (d ! r)) \<subseteq> set zs" .
    ultimately show "\<forall>x \<in> set xs. set (children (d ! x)) \<subseteq> set xs" using xs by auto
  qed
  have b: "\<And>cs ys. preorders (Suc n) d cs = Some ys \<Longrightarrow> (\<forall>x \<in> set ys. set (children (d ! x)) \<subseteq> set ys)"
  proof -
    fix cs ys
    show "preorders (Suc n) d cs = Some ys \<Longrightarrow> (\<forall>x \<in> set ys. set (children (d ! x)) \<subseteq> set ys)"
    proof (induction cs arbitrary: ys)
      case Nil
      then show ?case by simp
    next
      case (Cons c cs)
      from Cons.prems obtain x1 x2 where 1: "preorder (Suc n) d c = Some x1"
        and 2: "preorders (Suc n) d cs = Some x2" and ys: "ys = x1 @ x2"
        by (blast dest: preorders_ConsE)
      from a [OF 1] Cons.IH [OF 2] ys show ?case by auto
    qed
  qed
  from a b show ?case by blast
qed

lemma preorder_closed:
  "preorder n d r = Some xs \<Longrightarrow> x \<in> set xs \<Longrightarrow> set (children (d ! x)) \<subseteq> set xs"
  using preorder_closed_aux [of n d] by blast

lemma spine_notin:
  "spine d r p x \<Longrightarrow> preorder n d r = Some xs \<Longrightarrow> distinct xs \<Longrightarrow> x \<notin> set p"
proof (induction arbitrary: n xs rule: spine.induct)
  case (here d x)
  show ?case by simp
next
  case (down d r p x)
  from down.prems(1) obtain m zs where n: "n = Suc m" and 1: "preorders m d (children (d ! r)) = Some zs"
    and xs: "xs = r # zs"
    by (auto dest: preorder_SucE)
  from down.hyps(1) have cs: "children (d ! r) = butlast (children (d ! r)) @ [last (children (d ! r))]"
    by simp
  from 1 cs obtain z1 z2 where 2: "preorders m d [last (children (d ! r))] = Some z2" and zs: "zs = z1 @ z2"
    by (metis preorders_appendE)
  from 2 have 3: "preorder m d (last (children (d ! r))) = Some z2"
    by (auto split: option.splits)
  from spine_target [OF down.hyps(2) 3] have "x \<in> set z2" by simp
  with down.prems(2) xs zs have "x \<noteq> r" by auto
  moreover from down.prems(2) xs zs have "distinct z2" by simp
  from down.IH [OF 3 this] have "x \<notin> set p" .
  ultimately show ?case by simp
qed

section \<open>The document operations and the child lists\<close>

lemma length_setAttribute [simp]: "length (setAttribute h r n v) = length h"
  by (simp add: setAttribute_def)

lemma children_setAttribute [simp]: "children (setAttribute h r n v ! q) = children (h ! q)"
  by (simp add: setAttribute_def nth_list_update_any)

lemma length_classList_add [simp]: "length (classList_add h r c) = length h"
  by (simp add: classList_add_def)

lemma children_classList_add [simp]: "children (classList_add h r c ! q) = children (h ! q)"
  by (simp add: classList_add_def nth_list_update_any)

lemma length_set_style [simp]: "length (set_style h r n v) = length h"
  by (simp add: set_style_def)

lemma children_set_style [simp]: "children (set_style h r n v ! q) = children (h ! q)"
  by (simp add: set_style_def nth_list_update_any)

lemma length_addEventListener [simp]: "length (addEventListener h r n v) = length h"
  by (simp add: addEventListener_def)

lemma children_addEventListener [simp]: "children (addEventListener h r n v ! q) = children (h ! q)"
  by (simp add: addEventListener_def nth_list_update_any)

lemma length_tagPatchId [simp]: "length (tagPatchId A h r t) = length h"
  by (simp add: tagPatchId_def)

lemma children_tagPatchId [simp]: "children (tagPatchId A h r t ! q) = children (h ! q)"
  by (simp add: tagPatchId_def)

lemma length_set_textContent [simp]: "length (set_textContent h r t) = length h"
  by (simp add: set_textContent_def)

lemma children_set_textContent:
  "children (set_textContent h r t ! q) = (if q = r \<and> r < length h then [] else children (h ! q))"
  by (simp add: set_textContent_def nth_list_update_any)

lemma length_append_node [simp]: "length (append_node h p c) = length h"
  by (simp add: append_node_def Let_def)

lemma children_append_node:
  "p < length h \<Longrightarrow> q < length h \<Longrightarrow>
   children (append_node h p c ! q) =
     (if q = p then removeAll c (children (h ! p)) @ [c] else removeAll c (children (h ! q)))"
  by (simp add: append_node_def Let_def nth_list_update_any children_remove_node)

lemma createElement_eq:
  "createElement h tag = (r, d) \<Longrightarrow>
     r = length h \<and> length d = Suc (length h) \<and> children (d ! length h) = []
     \<and> (\<forall>q < length h. d ! q = h ! q)"
  by (auto simp add: createElement_def nth_append)

section \<open>pushCanvas\<close>

lemma doc_pushCanvas_length [simp]:
  "length (doc (pushCanvas A s this k)) = Suc (length (doc s))"
  by (simp add: pushCanvas_def createElement_def Let_def)

lemma children_pushCanvas:
  assumes "containerOf s this < length (doc s)" and "q \<le> length (doc s)"
  shows "children (doc (pushCanvas A s this k) ! q) =
     (if q = containerOf s this
      then removeAll (length (doc s)) (children (doc s ! q)) @ [length (doc s)]
      else if q = length (doc s) then []
      else removeAll (length (doc s)) (children (doc s ! q)))"
  using assms
  by (auto simp add: pushCanvas_def createElement_def Let_def containerOf_def
      children_append_node nth_append)

lemma pages_pushCanvas [simp]:
  "pages (pushCanvas A s this k) = (pages s)[k := (pages s ! k)\<lparr>stub := Some (length (doc s))\<rparr>]"
  by (simp add: pushCanvas_def createElement_def Let_def)

lemma containers_pushCanvas [simp]:
  "map gen_container (genElems (pushCanvas A s this k)) = map gen_container (genElems s)"
  by (simp add: pushCanvas_def createElement_def Let_def list_eq_iff_nth_eq nth_list_update_any)

lemma ctx_pushCanvas [simp]:
  "(pushCanvas A s this k)\<lparr>doc := d, pages := pg, genElems := g\<rparr> = s\<lparr>doc := d, pages := pg, genElems := g\<rparr>"
  by (simp add: pushCanvas_def createElement_def Let_def)

lemma tree_okD:
  "tree_ok b s xs \<Longrightarrow> \<exists>n. preorder n (doc s) b = Some xs"
  "tree_ok b s xs \<Longrightarrow> distinct xs"
  "tree_ok b s xs \<Longrightarrow> x \<in> set xs \<Longrightarrow> b \<le> x \<and> x < length (doc s)"
  by (auto simp add: tree_ok_def)

lemma tree_ok_children:
  "tree_ok b s xs \<Longrightarrow> x \<in> set xs \<Longrightarrow> c \<in> set (children (doc s ! x)) \<Longrightarrow> c \<in> set xs"
  by (auto simp add: tree_ok_def dest: preorder_closed)

text \<open>
  One step of the tree: below the element \<open>x\<close> of the rightmost path, a new last child
  \<open>c\<close> arrives whose own traversal is \<open>ys\<close>; nothing else changes in the tree.
\<close>

lemma tree_ok_append:
  assumes t: "tree_ok b s xs" and sp: "spine (doc s) b p x"
    and len: "length (doc s) \<le> length (doc s')"
    and keep: "\<And>q. q \<in> set xs \<Longrightarrow> q \<noteq> x \<Longrightarrow> children (doc s' ! q) = children (doc s ! q)"
    and app: "children (doc s' ! x) = children (doc s ! x) @ [c]"
    and sub: "preorder m (doc s') c = Some ys"
    and new: "distinct ys" "set ys \<inter> set xs = {}" "set ys \<subseteq> {b..<length (doc s')}"
  shows "tree_ok b s' (xs @ ys) \<and> spine (doc s') b p x"
proof -
  from t obtain n where n: "preorder n (doc s) b = Some xs" and d: "distinct xs"
    and r: "set xs \<subseteq> {b..<length (doc s)}"
    by (auto simp add: tree_ok_def)
  from preorder_append_spine [OF sp n d keep app sub]
  obtain k where "preorder k (doc s') b = Some (xs @ ys)" by blast
  moreover have "distinct (xs @ ys)" using d new by auto
  moreover have "set (xs @ ys) \<subseteq> {b..<length (doc s')}" using r new len by auto
  ultimately have 1: "tree_ok b s' (xs @ ys)" by (auto simp add: tree_ok_def)
  from spine_target [OF sp n] have pin: "set p \<subseteq> set xs" by simp
  from spine_notin [OF sp n d] have "x \<notin> set p" .
  with pin keep have "\<And>y. y \<in> set p \<Longrightarrow> children (doc s' ! y) = children (doc s ! y)" by auto
  from spine_frame [OF sp this] have 2: "spine (doc s') b p x" .
  from 1 2 show ?thesis by simp
qed

lemma pushCanvas_tree:
  assumes t: "tree_ok b s xs" and sp: "spine (doc s) b p (containerOf s this)"
  shows "tree_ok b (pushCanvas A s this k) (xs @ [length (doc s)])
         \<and> spine (doc (pushCanvas A s this k)) b p (containerOf s this)"
proof -
  let ?x = "containerOf s this" and ?c = "length (doc s)" and ?s' = "pushCanvas A s this k"
  from t obtain n where n: "preorder n (doc s) b = Some xs" by (auto simp add: tree_ok_def)
  from spine_target [OF sp n] have xin: "?x \<in> set xs" by simp
  with t have xl: "?x < length (doc s)" and bx: "b \<le> ?x" by (auto dest: tree_okD)
  have cn: "?c \<notin> set xs" using t by (auto dest: tree_okD)
  have nc: "\<And>q. q \<in> set xs \<Longrightarrow> ?c \<notin> set (children (doc s ! q))"
    using tree_ok_children [OF t] cn by blast
  have keep: "\<And>q. q \<in> set xs \<Longrightarrow> q \<noteq> ?x \<Longrightarrow> children (doc ?s' ! q) = children (doc s ! q)"
  proof -
    fix q assume q: "q \<in> set xs" "q \<noteq> ?x"
    with t have "q < length (doc s)" by (auto dest: tree_okD)
    with q nc [OF q(1)] xl show "children (doc ?s' ! q) = children (doc s ! q)"
      by (simp add: children_pushCanvas)
  qed
  have app: "children (doc ?s' ! ?x) = children (doc s ! ?x) @ [?c]"
    using xl nc [OF xin] by (simp add: children_pushCanvas)
  have "children (doc ?s' ! ?c) = []"
    using xl by (simp add: children_pushCanvas)
  then have sub: "preorder (Suc 0) (doc ?s') ?c = Some [?c]" by simp
  show ?thesis
    using tree_ok_append [OF t sp _ keep app sub] cn bx xl by simp
qed

lemma pushCanvas_keeps:
  assumes "containerOf s this < length (doc s)" and "q < length (doc s)" and "q \<noteq> containerOf s this"
    and "length (doc s) \<notin> set (children (doc s ! q))"
  shows "children (doc (pushCanvas A s this k) ! q) = children (doc s ! q)"
  using assms by (simp add: children_pushCanvas)

lemma pushCanvas_stubs:
  assumes st: "stubs_ok s xs k" and k: "k < length (pages s)" and cn: "length (doc s) \<notin> set xs"
  shows "stubs_ok (pushCanvas A s this k) (xs @ [length (doc s)]) (Suc k)"
proof -
  let ?c = "length (doc s)"
  have tk: "take (Suc k) (pages (pushCanvas A s this k)) = take k (pages s) @ [(pages s ! k)\<lparr>stub := Some ?c\<rparr>]"
    using k by (simp add: take_Suc_conv_app_nth)
  from st obtain es where E: "map stub (take k (pages s)) = map Some es"
    and F: "filter (\<lambda>r. r \<in> set es) xs = es"
    unfolding stubs_ok_def by blast
  have "filter (\<lambda>r. r \<in> set (es @ [?c])) xs = filter (\<lambda>r. r \<in> set es) xs"
    using cn by (intro filter_cong) auto
  with F have "filter (\<lambda>r. r \<in> set (es @ [?c])) (xs @ [?c]) = es @ [?c]"
    by simp
  moreover have "map stub (take (Suc k) (pages (pushCanvas A s this k))) = map Some (es @ [?c])"
    unfolding tk using E by simp
  moreover have "Suc k \<le> length (pages (pushCanvas A s this k))" using k by simp
  ultimately show ?thesis unfolding stubs_ok_def by blast
qed

lemma pushCanvas_pages_ok:
  "pages_ok pgs s \<Longrightarrow> pages_ok pgs (pushCanvas A s this k)"
  by (simp add: pages_ok_def map_update list_eq_iff_nth_eq nth_list_update_any)

lemma containerOf_pushCanvas [simp]:
  "containerOf (pushCanvas A s this k) g = containerOf s g"
  by (simp add: containerOf_def pushCanvas_def createElement_def Let_def nth_list_update_any)

lemma length_genElems_pushCanvas [simp]:
  "length (genElems (pushCanvas A s this k)) = length (genElems s)"
  by (simp add: pushCanvas_def createElement_def Let_def)

lemma spliceLoop_ok:
  assumes "tree_ok b s xs" and "spine (doc s) b p x" and "x = containerOf s nxt"
    and "stubs_ok s xs (nat (i - 1))" and "1 \<le> i" and "until \<le> int (length (pages s)) + 1"
    and "pages_ok pgs s"
  shows "\<exists>s' ys. spliceLoop A s nxt i until = Inr s'
      \<and> populateCnt s' = populateCnt s \<and> populateCntLog s' = populateCntLog s
      \<and> insertionPoint s' = insertionPoint s \<and> parent s' = parent s \<and> lastVisit s' = lastVisit s
      \<and> length (genElems s') = length (genElems s) \<and> (\<forall>g. containerOf s' g = containerOf s g)
      \<and> pages_ok pgs s' \<and> length (pages s') = length (pages s)
      \<and> length (doc s) \<le> length (doc s')
      \<and> tree_ok b s' (xs @ ys) \<and> set ys \<subseteq> {length (doc s)..<length (doc s')}
      \<and> spine (doc s') b p x
      \<and> stubs_ok s' (xs @ ys) (nat (max i until - 1))
      \<and> (\<forall>q < length (doc s). q \<noteq> x \<longrightarrow> (\<forall>c \<in> set (children (doc s ! q)). c < length (doc s))
            \<longrightarrow> children (doc s' ! q) = children (doc s ! q))"
  using assms
proof (induction A s nxt i until arbitrary: xs rule: spliceLoop.induct)
  case (1 A s nxt i until)
  show ?case
  proof (cases "i < until")
    case False
    then have "spliceLoop A s nxt i until = Inr s" by (simp add: spliceLoop.simps)
    moreover from False have "max i until = i" by simp
    ultimately show ?thesis
      using "1.prems" by (intro exI [of _ s] exI [of _ "[]"]) simp
  next
    case True
    let ?s1 = "pushCanvas A s nxt (nat (i - 1))" and ?c = "length (doc s)"
    from True "1.prems"(5,6) have i: "1 \<le> i \<and> i \<le> int (length (pages s))" by simp
    then have k: "nat (i - 1) < length (pages s)" by linarith
    from "1.prems"(1) obtain n where n: "preorder n (doc s) b = Some xs" by (auto simp add: tree_ok_def)
    from spine_target [OF "1.prems"(2) n] have xin: "x \<in> set xs" by simp
    with "1.prems"(1) have xl: "x < length (doc s)" by (auto dest: tree_okD)
    have cn: "?c \<notin> set xs" using "1.prems"(1) by (auto dest: tree_okD)
    from pushCanvas_tree [OF "1.prems"(1) "1.prems"(2) [unfolded "1.prems"(3)], of A "nat (i - 1)"]
    have t1: "tree_ok b ?s1 (xs @ [?c])" and sp1: "spine (doc ?s1) b p x"
      using "1.prems"(3) by simp_all
    have st1: "stubs_ok ?s1 (xs @ [?c]) (nat (i + 1 - 1))"
      using pushCanvas_stubs [OF "1.prems"(4) k cn, of A nxt] i by (simp add: Suc_nat_eq_nat_zadd1)
    have "\<exists>s' ys. spliceLoop A ?s1 nxt (i + 1) until = Inr s'
      \<and> populateCnt s' = populateCnt ?s1 \<and> populateCntLog s' = populateCntLog ?s1
      \<and> insertionPoint s' = insertionPoint ?s1 \<and> parent s' = parent ?s1 \<and> lastVisit s' = lastVisit ?s1
      \<and> length (genElems s') = length (genElems ?s1) \<and> (\<forall>g. containerOf s' g = containerOf ?s1 g)
      \<and> pages_ok pgs s' \<and> length (pages s') = length (pages ?s1)
      \<and> length (doc ?s1) \<le> length (doc s')
      \<and> tree_ok b s' ((xs @ [?c]) @ ys) \<and> set ys \<subseteq> {length (doc ?s1)..<length (doc s')}
      \<and> spine (doc s') b p x
      \<and> stubs_ok s' ((xs @ [?c]) @ ys) (nat (max (i + 1) until - 1))
      \<and> (\<forall>q < length (doc ?s1). q \<noteq> x \<longrightarrow> (\<forall>c \<in> set (children (doc ?s1 ! q)). c < length (doc ?s1))
            \<longrightarrow> children (doc s' ! q) = children (doc ?s1 ! q))"
      using True i t1 sp1 st1 "1.prems"(3,6,7)
      by (intro "1.IH") (simp_all add: pushCanvas_pages_ok)
    then obtain s' ys where r: "spliceLoop A ?s1 nxt (i + 1) until = Inr s'"
      and c: "populateCnt s' = populateCnt ?s1" "populateCntLog s' = populateCntLog ?s1"
        "insertionPoint s' = insertionPoint ?s1" "parent s' = parent ?s1" "lastVisit s' = lastVisit ?s1"
      and g: "length (genElems s') = length (genElems ?s1)" "\<forall>g. containerOf s' g = containerOf ?s1 g"
      and pg: "pages_ok pgs s'" "length (pages s') = length (pages ?s1)"
      and l: "length (doc ?s1) \<le> length (doc s')"
      and t: "tree_ok b s' ((xs @ [?c]) @ ys)" and ys: "set ys \<subseteq> {length (doc ?s1)..<length (doc s')}"
      and sp: "spine (doc s') b p x"
      and st: "stubs_ok s' ((xs @ [?c]) @ ys) (nat (max (i + 1) until - 1))"
      and fr: "\<forall>q < length (doc ?s1). q \<noteq> x \<longrightarrow> (\<forall>c \<in> set (children (doc ?s1 ! q)). c < length (doc ?s1))
            \<longrightarrow> children (doc s' ! q) = children (doc ?s1 ! q)"
      by blast
    have 1: "spliceLoop A s nxt i until = Inr s'"
      using True i r by (subst spliceLoop.simps) simp
    have f: "populateCnt ?s1 = populateCnt s" "populateCntLog ?s1 = populateCntLog s"
        "insertionPoint ?s1 = insertionPoint s" "parent ?s1 = parent s" "lastVisit ?s1 = lastVisit s"
      by (simp_all add: pushCanvas_def createElement_def Let_def)
    have 2: "populateCnt s' = populateCnt s" "populateCntLog s' = populateCntLog s"
        "insertionPoint s' = insertionPoint s" "parent s' = parent s" "lastVisit s' = lastVisit s"
      using c f by simp_all
    have 3: "max (i + 1) until = max i until" using True by simp
    have 4: "\<forall>q < length (doc s). q \<noteq> x \<longrightarrow> (\<forall>c \<in> set (children (doc s ! q)). c < length (doc s))
            \<longrightarrow> children (doc s' ! q) = children (doc s ! q)"
    proof (intro allI impI)
      fix q assume q: "q < length (doc s)" "q \<noteq> x" "\<forall>c \<in> set (children (doc s ! q)). c < length (doc s)"
      then have "?c \<notin> set (children (doc s ! q))" by auto
      with q xl have a: "children (doc ?s1 ! q) = children (doc s ! q)"
        using "1.prems"(3) by (intro pushCanvas_keeps) simp_all
      have "q < length (doc ?s1)" using q by simp
      moreover have "\<forall>c \<in> set (children (doc ?s1 ! q)). c < length (doc ?s1)"
        using q a by (simp add: less_Suc_eq)
      ultimately have "children (doc s' ! q) = children (doc ?s1 ! q)" using fr q(2) by blast
      with a show "children (doc s' ! q) = children (doc s ! q)" by simp
    qed
    have 5: "set (?c # ys) \<subseteq> {length (doc s)..<length (doc s')}" using ys l by auto
    show ?thesis
      using 1 2 3 4 5 g pg l t sp st
      by (intro exI [of _ s'] exI [of _ "?c # ys"]) simp
  qed
qed

lemma generate_phases:
  "generate A s (OutlineItemData ttl posn chs) level =
     (case gen_open A s ttl of
        (outlineNode, s1) \<Rightarrow>
          (let pos = (case posn of None \<Rightarrow> 0 | Some p \<Rightarrow> page_no p);
               hasChildren = (max 0 (pos - populateCnt s1) + int (length chs) > 0)
           in case spliceCanvas A s1 (insertionPoint s1) pos of
                Inl e \<Rightarrow> Inl e
              | Inr s2 \<Rightarrow>
                  (case gen_title A s2 outlineNode ttl level of
                     (titleSpan, s3) \<Rightarrow>
                       (case generate_all A (s3\<lparr>parent := outlineNode, insertionPoint := outlineNode\<rparr>)
                               chs (level + 1) of
                          Inl e \<Rightarrow> Inl e
                        | Inr s4 \<Rightarrow>
                            Inr (outlineNode,
                                 gen_close s4 (insertionPoint s3) (parent s3) titleSpan hasChildren)))))"
  by (simp add: gen_open_def gen_title_def gen_close_def Let_def split: prod.splits sum.splits)

lemma pages_ok_length: "pages_ok pgs s \<Longrightarrow> length (pages s) = length pgs"
  unfolding pages_ok_def by (drule arg_cong [where f = length]) simp

lemma sorted_le_last: "sorted xs \<Longrightarrow> v \<in> set xs \<Longrightarrow> v \<le> last xs"
  by (induction xs) (auto split: if_splits)

lemma spliceCanvas_ok:
  assumes t: "tree_ok b s xs" and sp: "spine (doc s) b p x" and x: "x = containerOf s nxt"
    and st: "stubs_ok s xs (nat (populateCnt s - 1))" and c1: "1 \<le> populateCnt s"
    and pg: "pages_ok pgs s" and lg: "log_ok pgs s"
  shows "\<exists>s' ys. spliceCanvas A s nxt until0 = Inr s'
      \<and> insertionPoint s' = insertionPoint s \<and> parent s' = parent s \<and> lastVisit s' = lastVisit s
      \<and> length (genElems s') = length (genElems s) \<and> (\<forall>g. containerOf s' g = containerOf s g)
      \<and> pages_ok pgs s' \<and> log_ok pgs s'
      \<and> length (doc s) \<le> length (doc s')
      \<and> tree_ok b s' (xs @ ys) \<and> set ys \<subseteq> {length (doc s)..<length (doc s')}
      \<and> spine (doc s') b p x
      \<and> 1 \<le> populateCnt s' \<and> populateCnt s \<le> populateCnt s'
      \<and> populateCnt s' = max (min until0 (int (length pgs) + 1)) (populateCnt s)
      \<and> stubs_ok s' (xs @ ys) (nat (populateCnt s' - 1))
      \<and> (\<forall>q < length (doc s). q \<noteq> x \<longrightarrow> (\<forall>c \<in> set (children (doc s ! q)). c < length (doc s))
            \<longrightarrow> children (doc s' ! q) = children (doc s ! q))"
proof -
  let ?u = "min until0 (int (length (pages s)) + 1)"
  have len: "length (pages s) = length pgs" using pg by (rule pages_ok_length)
  have u: "?u \<le> int (length (pages s)) + 1" by simp
  from spliceLoop_ok [OF t sp x st c1 u pg, of A]
  obtain s1 ys where r: "spliceLoop A s nxt (populateCnt s) ?u = Inr s1"
      and pc: "populateCnt s1 = populateCnt s" and pl: "populateCntLog s1 = populateCntLog s"
      and c: "insertionPoint s1 = insertionPoint s" "parent s1 = parent s" "lastVisit s1 = lastVisit s"
      and g: "length (genElems s1) = length (genElems s)" "\<forall>g. containerOf s1 g = containerOf s g"
      and pg1: "pages_ok pgs s1" "length (pages s1) = length (pages s)"
      and l: "length (doc s) \<le> length (doc s1)"
      and t1: "tree_ok b s1 (xs @ ys)" and ys: "set ys \<subseteq> {length (doc s)..<length (doc s1)}"
      and sp1: "spine (doc s1) b p x"
      and st1: "stubs_ok s1 (xs @ ys) (nat (max (populateCnt s) ?u - 1))"
      and fr: "\<forall>q < length (doc s). q \<noteq> x \<longrightarrow> (\<forall>c \<in> set (children (doc s ! q)). c < length (doc s))
            \<longrightarrow> children (doc s1 ! q) = children (doc s ! q)"
    by blast
  let ?m = "max ?u (populateCnt s1)"
  let ?s' = "s1\<lparr>populateCnt := ?m, populateCntLog := populateCntLog s1 @ [?m]\<rparr>"
  have 1: "spliceCanvas A s nxt until0 = Inr ?s'"
    using r by (simp add: spliceCanvas_def Let_def)
  have 2: "insertionPoint ?s' = insertionPoint s" "parent ?s' = parent s" "lastVisit ?s' = lastVisit s"
    using c by simp_all
  have m: "?m = max (min until0 (int (length pgs) + 1)) (populateCnt s)"
    using pc len by simp
  from lg have ls: "sorted (populateCntLog s)" and lr: "set (populateCntLog s) \<subseteq> {1..int (length pgs) + 1}"
    and ln: "populateCntLog s \<noteq> []" and ll: "last (populateCntLog s) = populateCnt s"
    by (auto simp add: log_ok_def)
  from ln ll have "populateCnt s \<in> set (populateCntLog s)" by (metis last_in_set)
  with lr have cu: "populateCnt s \<le> int (length pgs) + 1" by auto
  have "\<forall>v \<in> set (populateCntLog s). v \<le> populateCnt s"
    using ls ll sorted_le_last [of "populateCntLog s"] by auto
  then have 3: "log_ok pgs ?s'"
    using ls lr c1 cu pc pl len by (auto simp add: log_ok_def sorted_append)
  have 4: "stubs_ok ?s' (xs @ ys) (nat (populateCnt ?s' - 1))"
    using st1 pc by (simp add: stubs_ok_def max.commute)
  have 5: "length (genElems ?s') = length (genElems s)" "\<forall>g. containerOf ?s' g = containerOf s g"
    "pages_ok pgs ?s'" "length (doc s) \<le> length (doc ?s')" "tree_ok b ?s' (xs @ ys)"
    "set ys \<subseteq> {length (doc s)..<length (doc ?s')}" "spine (doc ?s') b p x"
    using g pg1 l t1 ys sp1 by (simp_all add: tree_ok_def pages_ok_def containerOf_def)
  have 6: "1 \<le> populateCnt ?s'" "populateCnt s \<le> populateCnt ?s'"
    "populateCnt ?s' = max (min until0 (int (length pgs) + 1)) (populateCnt s)"
    using c1 pc m by simp_all
  have 7: "\<forall>q < length (doc s). q \<noteq> x \<longrightarrow> (\<forall>c \<in> set (children (doc s ! q)). c < length (doc s))
            \<longrightarrow> children (doc ?s' ! q) = children (doc s ! q)"
    using fr by simp
  from 1 2 3 4 5 6 7 show ?thesis by blast
qed

section \<open>The parts of generate\<close>

lemma gen_open_fst [simp]: "fst (gen_open A s ttl) = length (genElems s)"
  by (simp add: gen_open_def createElement_def new_GenElem_def Let_def)

lemma gen_open_genElems [simp]:
  "genElems (snd (gen_open A s ttl)) = genElems s @ [\<lparr>gen_children = [], gen_container = length (doc s)\<rparr>]"
  by (simp add: gen_open_def createElement_def new_GenElem_def Let_def)

lemma gen_open_length [simp]: "length (doc (snd (gen_open A s ttl))) = Suc (length (doc s))"
  by (simp add: gen_open_def createElement_def new_GenElem_def Let_def)

lemma gen_open_old: "q < length (doc s) \<Longrightarrow> doc (snd (gen_open A s ttl)) ! q = doc s ! q"
  by (simp add: gen_open_def createElement_def new_GenElem_def Let_def tagPatchId_def
      setAttribute_def classList_add_def nth_list_update_any nth_append)

lemma gen_open_new [simp]: "children (doc (snd (gen_open A s ttl)) ! length (doc s)) = []"
  by (simp add: gen_open_def createElement_def new_GenElem_def Let_def)

lemma gen_open_fields [simp]:
  "pages (snd (gen_open A s ttl)) = pages s"
  "populateCnt (snd (gen_open A s ttl)) = populateCnt s"
  "populateCntLog (snd (gen_open A s ttl)) = populateCntLog s"
  "insertionPoint (snd (gen_open A s ttl)) = insertionPoint s"
  "parent (snd (gen_open A s ttl)) = parent s"
  "lastVisit (snd (gen_open A s ttl)) = lastVisit s"
  by (simp_all add: gen_open_def createElement_def new_GenElem_def Let_def)

lemma gen_title_fst [simp]: "fst (gen_title A s g ttl level) = length (doc s)"
  by (simp add: gen_title_def createElement_def new_GenElem_def Let_def push_def)

lemma gen_title_length [simp]: "length (doc (snd (gen_title A s g ttl level))) = Suc (length (doc s))"
  by (simp add: gen_title_def createElement_def new_GenElem_def Let_def push_def)

lemma gen_title_genElems_length [simp]:
  "length (genElems (snd (gen_title A s g ttl level))) = Suc (length (genElems s))"
  by (simp add: gen_title_def createElement_def new_GenElem_def Let_def push_def)

lemma gen_title_fields [simp]:
  "pages (snd (gen_title A s g ttl level)) = pages s"
  "populateCnt (snd (gen_title A s g ttl level)) = populateCnt s"
  "populateCntLog (snd (gen_title A s g ttl level)) = populateCntLog s"
  "insertionPoint (snd (gen_title A s g ttl level)) = insertionPoint s"
  "parent (snd (gen_title A s g ttl level)) = parent s"
  "lastVisit (snd (gen_title A s g ttl level)) = Some g"
  by (simp_all add: gen_title_def createElement_def new_GenElem_def Let_def push_def)

lemma gen_close_fields [simp]:
  "pages (gen_close s i0 p0 t h) = pages s"
  "genElems (gen_close s i0 p0 t h) = genElems s"
  "populateCnt (gen_close s i0 p0 t h) = populateCnt s"
  "populateCntLog (gen_close s i0 p0 t h) = populateCntLog s"
  "insertionPoint (gen_close s i0 p0 t h) = i0"
  "parent (gen_close s i0 p0 t h) = p0"
  "lastVisit (gen_close s i0 p0 t h) = lastVisit s"
  "length (doc (gen_close s i0 p0 t h)) = length (doc s)"
  "children (doc (gen_close s i0 p0 t h) ! q) = children (doc s ! q)"
  by (simp_all add: gen_close_def Let_def)

lemma length_doc_push [simp]: "length (doc (push s this child)) = length (doc s)"
  by (simp add: push_def Let_def)

lemma children_push:
  assumes "gen_container (genElems s ! this) < length (doc s)" and "q < length (doc s)"
  shows "children (doc (push s this child) ! q) =
     (if q = gen_container (genElems s ! this)
      then removeAll (node_container s child) (children (doc s ! q)) @ [node_container s child]
      else removeAll (node_container s child) (children (doc s ! q)))"
  using assms by (simp add: push_def Let_def children_append_node)

lemma containers_push [simp]:
  "map gen_container (genElems (push s this child)) = map gen_container (genElems s)"
  by (simp add: push_def Let_def list_eq_iff_nth_eq nth_list_update_any)

lemma containerOf_push [simp]: "containerOf (push s this child) g = containerOf s g"
  by (simp add: push_def Let_def containerOf_def nth_list_update_any)

lemma containerOf_updates [simp]:
  "containerOf (s\<lparr>lastVisit := l\<rparr>) g = containerOf s g"
  "containerOf (s\<lparr>doc := d\<rparr>) g = containerOf s g"
  "containerOf (s\<lparr>parent := p\<rparr>) g = containerOf s g"
  "containerOf (s\<lparr>insertionPoint := i\<rparr>) g = containerOf s g"
  "containerOf (s\<lparr>pages := pg\<rparr>) g = containerOf s g"
  by (simp_all add: containerOf_def)

lemma containerOf_genElems_update:
  "containerOf (s\<lparr>genElems := G\<rparr>) g = gen_container (G ! g)"
  by (simp add: containerOf_def)

lemma gen_title_unfold:
  "snd (gen_title A s g ttl level) =
     push ((push (s\<lparr>doc := tagPatchId A
                    (set_textContent
                      (classList_add
                        (classList_add (doc s @ [\<lparr>tagName = ''span'', attributes = [], classList = [],
                             textContent = [], style = [], listeners = [], children = []\<rparr>])
                           (length (doc s)) ''typst-outline-title'')
                        (length (doc s)) (''level-'' @ toString level))
                      (length (doc s)) ttl)
                    (length (doc s)) (''title:'' @ ttl),
                genElems := genElems s @ [\<lparr>gen_children = [], gen_container = length (doc s)\<rparr>]\<rparr>)
             g (GenElemRef (length (genElems s))))\<lparr>lastVisit := Some g\<rparr>)
       (parent s) (GenElemRef g)"
  by (simp add: gen_title_def createElement_def new_GenElem_def Let_def push_def)

lemma gen_title_containerOf_old:
  "i < length (genElems s) \<Longrightarrow> containerOf (snd (gen_title A s g ttl level)) i = containerOf s i"
  unfolding gen_title_unfold
  by (simp add: containerOf_genElems_update nth_append) (simp add: containerOf_def)

lemma gen_title_containerOf_new:
  "containerOf (snd (gen_title A s g ttl level)) (length (genElems s)) = length (doc s)"
  unfolding gen_title_unfold
  by (simp add: containerOf_genElems_update nth_append)

lemma children_push':
  assumes "containerOf s this < length (doc s)" and "q < length (doc s)"
  shows "children (doc (push s this (GenElemRef g)) ! q) =
     (if q = containerOf s this
      then removeAll (containerOf s g) (children (doc s ! q)) @ [containerOf s g]
      else removeAll (containerOf s g) (children (doc s ! q)))"
  using assms children_push [of s this q "GenElemRef g"]
  by (simp add: containerOf_def node_container_def)

lemma two_pushes:
  assumes l: "length (doc sa) = Suc t"
    and o: "containerOf sa g = x" "x < t"
    and tn: "containerOf sa tn = t" "children (doc sa ! t) = []"
    and p: "containerOf sa par = y" "y < t" "x \<noteq> y"
    and q: "q \<le> t"
  shows "children (doc (push ((push sa g (GenElemRef tn))\<lparr>lastVisit := lv\<rparr>) par (GenElemRef g)) ! q) =
     (if q = y then removeAll x (removeAll t (children (doc sa ! q))) @ [x]
      else if q = x then removeAll x (removeAll t (children (doc sa ! q)) @ [t])
      else if q = t then []
      else removeAll x (removeAll t (children (doc sa ! q))))"
proof -
  let ?sb = "push sa g (GenElemRef tn)"
  let ?sc = "?sb\<lparr>lastVisit := lv\<rparr>"
  have cb: "children (doc ?sb ! q) =
      (if q = x then removeAll t (children (doc sa ! q)) @ [t]
       else removeAll t (children (doc sa ! q)))"
    using children_push' [of sa g q tn] l o tn q by simp
  have cc: "children (doc ?sc ! q) = children (doc ?sb ! q)" by simp
  have "children (doc (push ?sc par (GenElemRef g)) ! q) =
      (if q = y then removeAll x (children (doc ?sc ! q)) @ [x]
       else removeAll x (children (doc ?sc ! q)))"
    using children_push' [of ?sc par q g] l o p q by simp
  then show ?thesis
    unfolding cc cb using tn p o by auto
qed

lemma gen_title_children:
  assumes g: "g < length (genElems s)" and p: "parent s < length (genElems s)"
    and og: "containerOf s g < length (doc s)" and op: "containerOf s (parent s) < length (doc s)"
    and ne: "containerOf s g \<noteq> containerOf s (parent s)"
    and q: "q \<le> length (doc s)"
  shows "children (doc (snd (gen_title A s g ttl level)) ! q) =
     (if q = containerOf s (parent s)
        then removeAll (containerOf s g) (removeAll (length (doc s)) (children (doc s ! q)))
               @ [containerOf s g]
      else if q = containerOf s g
        then removeAll (containerOf s g) (removeAll (length (doc s)) (children (doc s ! q))
               @ [length (doc s)])
      else if q = length (doc s) then []
      else removeAll (containerOf s g) (removeAll (length (doc s)) (children (doc s ! q))))"
proof -
  define t where "t = length (doc s)"
  define sa where "sa = s\<lparr>doc := tagPatchId A
                    (set_textContent
                      (classList_add
                        (classList_add (doc s @ [\<lparr>tagName = ''span'', attributes = [], classList = [],
                             textContent = [], style = [], listeners = [], children = []\<rparr>])
                           (length (doc s)) ''typst-outline-title'')
                        (length (doc s)) (''level-'' @ toString level))
                      (length (doc s)) ttl)
                    (length (doc s)) (''title:'' @ ttl),
                genElems := genElems s @ [\<lparr>gen_children = [], gen_container = length (doc s)\<rparr>]\<rparr>"
  have ld: "length (doc sa) = Suc t" by (simp add: sa_def t_def)
  have cd: "\<And>r. r \<le> t \<Longrightarrow> children (doc sa ! r) = (if r = t then [] else children (doc s ! r))"
    by (simp add: sa_def t_def children_set_textContent nth_append)
  have c1: "containerOf sa g = containerOf s g"
    using g by (simp add: sa_def containerOf_def nth_append)
  have c2: "containerOf sa (length (genElems s)) = t"
    by (simp add: sa_def t_def containerOf_def)
  have c3: "containerOf sa (parent s) = containerOf s (parent s)"
    using p by (simp add: sa_def containerOf_def nth_append)
  have e: "snd (gen_title A s g ttl level) =
      push ((push sa g (GenElemRef (length (genElems s))))\<lparr>lastVisit := Some g\<rparr>) (parent s) (GenElemRef g)"
    by (simp add: gen_title_unfold sa_def)
  have c5: "children (doc sa ! t) = []" using cd [of t] by simp
  have og': "containerOf s g < t" and op': "containerOf s (parent s) < t" and q': "q \<le> t"
    using og op q by (simp_all add: t_def)
  note tp = two_pushes [of sa t g "containerOf s g" "length (genElems s)" "parent s"
        "containerOf s (parent s)" q "Some g", OF ld c1 og' c2 c5 c3 op' ne q']
  show ?thesis
    unfolding e tp cd [OF q'] t_def [symmetric] using og' op' by auto
qed

lemma build_invD:
  assumes "build_inv b pgs s xs"
  shows "gens_ok b s" and "tree_ok b s xs" and "pages_ok pgs s" and "log_ok pgs s"
    and "1 \<le> populateCnt s" and "stubs_ok s xs (nat (populateCnt s - 1))"
  using assms by (simp_all add: build_inv_def)

lemma tree_ok_root: "tree_ok b s xs \<Longrightarrow> b \<in> set xs \<and> b < length (doc s)"
  by (auto simp add: tree_ok_def dest: preorder_root)

lemma tree_ok_frame:
  assumes "tree_ok b s xs" and "length (doc s) \<le> length (doc s')"
    and "\<And>q. q \<in> set xs \<Longrightarrow> children (doc s' ! q) = children (doc s ! q)"
  shows "tree_ok b s' xs"
proof -
  from assms(1) obtain n where n: "preorder n (doc s) b = Some xs" and d: "distinct xs"
    and r: "set xs \<subseteq> {b..<length (doc s)}"
    by (auto simp add: tree_ok_def)
  from preorder_frame [OF n assms(3)] have "preorder n (doc s') b = Some xs" by simp
  with d r assms(2) show ?thesis by (auto simp add: tree_ok_def)
qed

lemma tree_spine_frame:
  assumes "tree_ok b s xs" and "spine (doc s) b p x"
    and "\<And>q. q \<in> set xs \<Longrightarrow> q \<noteq> x \<Longrightarrow> children (doc s' ! q) = children (doc s ! q)"
  shows "spine (doc s') b p x"
proof -
  from assms(1) obtain n where n: "preorder n (doc s) b = Some xs" and d: "distinct xs"
    by (auto simp add: tree_ok_def)
  from spine_target [OF assms(2) n] have "set p \<subseteq> set xs" by simp
  moreover from spine_notin [OF assms(2) n d] have "x \<notin> set p" .
  ultimately have "\<And>y. y \<in> set p \<Longrightarrow> children (doc s' ! y) = children (doc s ! y)"
    using assms(3) by auto
  from spine_frame [OF assms(2) this] show ?thesis .
qed

lemma tree_spine_in:
  "tree_ok b s xs \<Longrightarrow> spine (doc s) b p x \<Longrightarrow> x \<in> set xs \<and> x \<notin> set p \<and> set p \<subseteq> set xs"
  by (auto simp add: tree_ok_def dest: spine_target spine_notin)

lemma stubs_ok_frame: "stubs_ok s xs k \<Longrightarrow> pages s' = pages s \<Longrightarrow> stubs_ok s' xs k"
  by (simp add: stubs_ok_def)

lemma stubs_ok_extend:
  assumes "stubs_ok s xs k" and "set ws \<inter> set xs = {}"
  shows "stubs_ok s (xs @ ws) k"
proof -
  from assms(1) obtain es where E: "map stub (take k (pages s)) = map Some es"
    and F: "filter (\<lambda>r. r \<in> set es) xs = es" and k: "k \<le> length (pages s)"
    unfolding stubs_ok_def by blast
  from F have "set es \<subseteq> set xs" by (metis filter_is_subset)
  with assms(2) have "filter (\<lambda>r. r \<in> set es) ws = []" by (auto simp add: filter_empty_conv)
  with F have "filter (\<lambda>r. r \<in> set es) (xs @ ws) = es" by simp
  with E k show ?thesis unfolding stubs_ok_def by blast
qed

lemma gens_okI:
  assumes "insertionPoint s < length (genElems s)" and "parent s < length (genElems s)"
    and "\<And>l. lastVisit s = Some l \<Longrightarrow> l < length (genElems s)"
    and "\<And>g. g < length (genElems s) \<Longrightarrow> b \<le> containerOf s g \<and> containerOf s g < length (doc s)"
  shows "gens_ok b s"
  using assms by (simp add: gens_ok_def)

lemma gens_okD:
  assumes "gens_ok b s"
  shows "insertionPoint s < length (genElems s)" and "parent s < length (genElems s)"
    and "lastVisit s = Some l \<Longrightarrow> l < length (genElems s)"
    and "g < length (genElems s) \<Longrightarrow> b \<le> containerOf s g \<and> containerOf s g < length (doc s)"
  using assms by (simp_all add: gens_ok_def)

lemma build_invI:
  assumes "gens_ok b s" and "tree_ok b s xs" and "pages_ok pgs s" and "log_ok pgs s"
    and "1 \<le> populateCnt s" and "stubs_ok s xs (nat (populateCnt s - 1))"
  shows "build_inv b pgs s xs"
  using assms by (simp add: build_inv_def)

lemma pages_ok_frame: "pages_ok pgs s \<Longrightarrow> pages s' = pages s \<Longrightarrow> pages_ok pgs s'"
  by (simp add: pages_ok_def)

lemma log_ok_frame:
  "log_ok pgs s \<Longrightarrow> populateCnt s' = populateCnt s \<Longrightarrow> populateCntLog s' = populateCntLog s
     \<Longrightarrow> log_ok pgs s'"
  by (simp add: log_ok_def)

lemma gen_step:
  assumes pre: "gen_pre b pgs p s xs"
    and loop: "\<And>s0 xs0 p0. gen_pre b pgs p0 s0 xs0 \<Longrightarrow>
        \<exists>s' ys. generate_all A s0 chs (level + 1) = Inr s' \<and> gen_all_post b pgs p0 s0 xs0 chs s' ys"
  shows "\<exists>node s' ys. generate A s (OutlineItemData ttl posn chs) level = Inr (node, s')
           \<and> gen_post b pgs p s xs node s' ys"
proof -
  define parC where "parC = containerOf s (parent s)"
  define ipC where "ipC = containerOf s (insertionPoint s)"
  define ob where "ob = length (doc s)"
  define g where "g = length (genElems s)"
  define s1 where "s1 = snd (gen_open A s ttl)"
  define pos where "pos = (case posn of None \<Rightarrow> 0 | Some c \<Rightarrow> page_no c)"
  define hasChildren where "hasChildren = (max 0 (pos - populateCnt s1) + int (length chs) > 0)"
  from pre have inv: "build_inv b pgs s xs" and spP: "spine (doc s) b p parC"
    and spI: "ipC = parC \<or> spine (doc s) b (p @ [parC]) ipC"
    by (simp_all add: gen_pre_def parC_def ipC_def)
  note iv = build_invD [OF inv]
  note gk = gens_okD [OF iv(1)]
  from tree_ok_root [OF iv(2)] have bl: "b < length (doc s)" by simp
  have xsl: "\<And>q. q \<in> set xs \<Longrightarrow> q < ob" using iv(2) by (auto simp add: ob_def dest: tree_okD)
  have parC_in: "parC \<in> set xs" using tree_spine_in [OF iv(2) spP] by simp
  obtain pI where spI': "spine (doc s) b pI ipC" and pI: "pI = p \<or> pI = p @ [parC]"
    using spI spP by auto
  have ipC_in: "ipC \<in> set xs" and ipC_np: "ipC \<notin> set pI"
    using tree_spine_in [OF iv(2) spI'] by simp_all
  have ipC_p: "ipC \<notin> set p" using ipC_np pI by auto
  have go: "gen_open A s ttl = (g, s1)"
    by (simp add: g_def s1_def prod_eq_iff)
  have l1: "length (doc s1) = Suc ob" by (simp add: s1_def ob_def)
  have k1: "\<And>q. q < ob \<Longrightarrow> children (doc s1 ! q) = children (doc s ! q)"
    by (simp add: s1_def ob_def gen_open_old)
  have o1: "children (doc s1 ! ob) = []" by (simp add: s1_def ob_def)
  have f1: "pages s1 = pages s" "populateCnt s1 = populateCnt s" "populateCntLog s1 = populateCntLog s"
    "insertionPoint s1 = insertionPoint s" "parent s1 = parent s" "lastVisit s1 = lastVisit s"
    by (simp_all add: s1_def)
  have g1: "length (genElems s1) = Suc g" by (simp add: s1_def g_def)
  have c1: "\<And>i. i < g \<Longrightarrow> containerOf s1 i = containerOf s i"
    by (simp add: s1_def g_def containerOf_def nth_append)
  have c1g: "containerOf s1 g = ob"
    by (simp add: s1_def g_def ob_def containerOf_def)
  have t1: "tree_ok b s1 xs"
    using iv(2) xsl by (intro tree_ok_frame [OF iv(2)]) (simp_all add: l1 k1 ob_def [symmetric])
  have spP1: "spine (doc s1) b p parC"
    using xsl by (intro tree_spine_frame [OF iv(2) spP]) (simp add: k1)
  have spI1: "spine (doc s1) b pI ipC"
    using xsl by (intro tree_spine_frame [OF iv(2) spI']) (simp add: k1)
  have x1: "ipC = containerOf s1 (insertionPoint s1)"
    using gk(1) by (simp add: f1 c1 g_def ipC_def)
  have st1: "stubs_ok s1 xs (nat (populateCnt s1 - 1))"
    using iv(6) by (simp add: f1 stubs_ok_def)
  have pg1: "pages_ok pgs s1" using iv(3) by (simp add: pages_ok_def f1)
  have lg1: "log_ok pgs s1" using iv(4) by (simp add: log_ok_def f1)
  have cn1: "1 \<le> populateCnt s1" using iv(5) by (simp add: f1)
  from spliceCanvas_ok [OF t1 spI1 x1 st1 cn1 pg1 lg1, of A pos]
  obtain s2 ys2 where r2: "spliceCanvas A s1 (insertionPoint s1) pos = Inr s2"
    and f2: "insertionPoint s2 = insertionPoint s1" "parent s2 = parent s1" "lastVisit s2 = lastVisit s1"
    and g2: "length (genElems s2) = length (genElems s1)" and c2: "\<forall>i. containerOf s2 i = containerOf s1 i"
    and pg2: "pages_ok pgs s2" and lg2: "log_ok pgs s2"
    and l2: "length (doc s1) \<le> length (doc s2)"
    and t2: "tree_ok b s2 (xs @ ys2)" and ys2: "set ys2 \<subseteq> {length (doc s1)..<length (doc s2)}"
    and cn2: "1 \<le> populateCnt s2" and cm2: "populateCnt s1 \<le> populateCnt s2"
    and st2: "stubs_ok s2 (xs @ ys2) (nat (populateCnt s2 - 1))"
    and fr2: "\<forall>q < length (doc s1). q \<noteq> ipC \<longrightarrow> (\<forall>c \<in> set (children (doc s1 ! q)). c < length (doc s1))
            \<longrightarrow> children (doc s2 ! q) = children (doc s1 ! q)"
    by blast
  define tb where "tb = length (doc s2)"
  have ob_tb: "ob < tb" using l1 l2 by (simp add: tb_def)
  have xs_ch: "\<And>q c. q \<in> set xs \<Longrightarrow> c \<in> set (children (doc s1 ! q)) \<Longrightarrow> c < length (doc s1)"
    using tree_ok_children [OF t1] t1 by (fastforce dest: tree_okD)
  have k2: "\<And>q. q \<in> set xs \<Longrightarrow> q \<noteq> ipC \<Longrightarrow> children (doc s2 ! q) = children (doc s1 ! q)"
  proof -
    fix q assume q: "q \<in> set xs" "q \<noteq> ipC"
    then have "q < length (doc s1)" using xsl l1 by fastforce
    with q fr2 xs_ch [OF q(1)] show "children (doc s2 ! q) = children (doc s1 ! q)" by blast
  qed
  have ob_ip: "ob \<noteq> ipC" using xsl [OF ipC_in] by simp
  have o2: "children (doc s2 ! ob) = []"
    using fr2 ob_ip o1 l1 by simp
  have spP2: "spine (doc s2) b p parC"
  proof (cases "ipC = parC")
    case True
    with pI spI1 spP1 have "spine (doc s1) b p ipC"
      using tree_spine_in [OF t1 spI1] by auto
    from spliceCanvas_ok [OF t1 this x1 st1 cn1 pg1 lg1, of A pos] r2 True show ?thesis by auto
  next
    case False
    show ?thesis
      using k2 False tree_spine_in [OF t1 spP1] ipC_p
      by (intro spine_frame [OF spP1]) auto
  qed
  have ob_n: "ob \<notin> set (xs @ ys2)" using xsl ys2 l1 by fastforce
  have tb_n: "tb \<notin> set (xs @ ys2)" using t2 by (auto simp add: tb_def dest: tree_okD)
  have parC2: "parC \<in> set (xs @ ys2)" using parC_in by simp
  have parC_tb: "parC < tb" using xsl [OF parC_in] ob_tb by simp
  have parC_ob: "ob \<noteq> parC" using xsl [OF parC_in] by simp
  define s3 where "s3 = snd (gen_title A s2 g ttl level)"
  have gt: "gen_title A s2 g ttl level = (tb, s3)"
    by (simp add: s3_def tb_def prod_eq_iff)
  have gs2: "g < length (genElems s2)" "parent s2 < length (genElems s2)"
    using g2 g1 f2 f1 gk(2) by (simp_all add: g_def)
  have cg2: "containerOf s2 g = ob" "containerOf s2 (parent s2) = parC"
    using c2 c1g c1 [of "parent s"] gk(2) by (simp_all add: f2 f1 g_def parC_def)
  have l3: "length (doc s3) = Suc tb" by (simp add: s3_def tb_def)
  have ch3: "\<And>q. q \<le> tb \<Longrightarrow> children (doc s3 ! q) =
     (if q = parC then removeAll ob (removeAll tb (children (doc s2 ! q))) @ [ob]
      else if q = ob then removeAll ob (removeAll tb (children (doc s2 ! q)) @ [tb])
      else if q = tb then []
      else removeAll ob (removeAll tb (children (doc s2 ! q))))"
    using gen_title_children [of g s2 _ A ttl level, OF gs2] cg2 ob_tb parC_tb parC_ob
    by (simp add: s3_def tb_def)
  have tr2: "\<And>q. q \<in> set (xs @ ys2) \<Longrightarrow>
      removeAll ob (removeAll tb (children (doc s2 ! q))) = children (doc s2 ! q)"
    using tree_ok_children [OF t2] ob_n tb_n by (metis removeAll_id)
  have in2: "\<And>q. q \<in> set (xs @ ys2) \<Longrightarrow> q < tb \<and> q \<noteq> ob \<and> q \<noteq> tb"
    using t2 ob_n tb_n by (auto simp add: tb_def dest: tree_okD)
  have keep3: "\<And>q. q \<in> set (xs @ ys2) \<Longrightarrow> q \<noteq> parC \<Longrightarrow> children (doc s3 ! q) = children (doc s2 ! q)"
  proof -
    fix q assume q: "q \<in> set (xs @ ys2)" "q \<noteq> parC"
    from in2 [OF q(1)] have "q \<le> tb" "q \<noteq> ob" "q \<noteq> tb" by simp_all
    with q(2) have "children (doc s3 ! q) = removeAll ob (removeAll tb (children (doc s2 ! q)))"
      by (simp add: ch3)
    with tr2 [OF q(1)] show "children (doc s3 ! q) = children (doc s2 ! q)" by simp
  qed
  have app3: "children (doc s3 ! parC) = children (doc s2 ! parC) @ [ob]"
    using tr2 [OF parC2] parC_tb by (simp add: ch3)
  have cob3: "children (doc s3 ! ob) = [tb]"
    using o2 ob_tb parC_ob by (simp add: ch3)
  have ctb3: "children (doc s3 ! tb) = []"
    using ob_tb parC_tb by (simp add: ch3)
  have sub3: "preorder (Suc (Suc 0)) (doc s3) ob = Some [ob, tb]"
    by (simp add: cob3 ctb3)
  have bob: "b \<le> ob" using bl by (simp add: ob_def)
  have t3sp: "tree_ok b s3 ((xs @ ys2) @ [ob, tb]) \<and> spine (doc s3) b p parC"
    using ob_n tb_n ob_tb bob
    by (intro tree_ok_append [OF t2 spP2 _ keep3 app3 sub3]) (auto simp add: l3 tb_def)
  then have t3: "tree_ok b s3 (xs @ ys2 @ [ob, tb])" and spP3: "spine (doc s3) b p parC" by simp_all
  have spO3: "spine (doc s3) b (p @ [parC]) ob"
    using spine_snoc [OF spP3] app3 by simp
  have f3: "pages s3 = pages s2" "populateCnt s3 = populateCnt s2" "populateCntLog s3 = populateCntLog s2"
    "insertionPoint s3 = insertionPoint s2" "parent s3 = parent s2" "lastVisit s3 = Some g"
    by (simp_all add: s3_def)
  have g3: "length (genElems s3) = Suc (Suc g)" using g2 g1 by (simp add: s3_def)
  have c3: "\<And>i. i \<le> g \<Longrightarrow> containerOf s3 i = containerOf s2 i"
    using g2 g1 by (simp add: s3_def gen_title_containerOf_old)
  have c3n: "containerOf s3 (Suc g) = tb"
    using gen_title_containerOf_new [of A s2 g ttl level] g2 g1 by (simp add: s3_def tb_def)
  define s3' where "s3' = s3\<lparr>parent := g, insertionPoint := g\<rparr>"
  have cont3: "\<And>i. i < Suc (Suc g) \<Longrightarrow> b \<le> containerOf s3 i \<and> containerOf s3 i < Suc tb"
  proof -
    fix i assume i: "i < Suc (Suc g)"
    consider "i < g" | "i = g" | "i = Suc g" using i by linarith
    then show "b \<le> containerOf s3 i \<and> containerOf s3 i < Suc tb"
    proof cases
      case 1
      then have "containerOf s3 i = containerOf s i" using c3 [of i] c2 c1 [of i] by simp
      with gk(4) [of i] 1 ob_tb show ?thesis by (simp add: g_def ob_def)
    next
      case 2
      then have "containerOf s3 i = ob" using c3 [of i] cg2 by simp
      with bob ob_tb show ?thesis by simp
    next
      case 3
      with c3n bob ob_tb show ?thesis by simp
    qed
  qed
  have gok3: "gens_ok b s3'"
    using cont3 by (intro gens_okI) (simp_all add: s3'_def g3 f3 l3)
  have inv3: "build_inv b pgs s3' (xs @ ys2 @ [ob, tb])"
  proof (rule build_invI [OF gok3])
    show "tree_ok b s3' (xs @ ys2 @ [ob, tb])" using t3 by (simp add: tree_ok_def s3'_def)
    show "pages_ok pgs s3'" using pg2 by (simp add: pages_ok_def s3'_def f3)
    show "log_ok pgs s3'" using lg2 by (simp add: log_ok_def s3'_def f3)
    show "1 \<le> populateCnt s3'" using cn2 by (simp add: s3'_def f3)
    have "stubs_ok s2 ((xs @ ys2) @ [ob, tb]) (nat (populateCnt s2 - 1))"
      using ob_n tb_n by (intro stubs_ok_extend [OF st2]) auto
    then show "stubs_ok s3' (xs @ ys2 @ [ob, tb]) (nat (populateCnt s3' - 1))"
      by (simp add: stubs_ok_def s3'_def f3)
  qed
  have cg3: "containerOf s3' g = ob" using c3 [of g] cg2 by (simp add: s3'_def)
  have pre3: "gen_pre b pgs (p @ [parC]) s3' (xs @ ys2 @ [ob, tb])"
    using inv3 spO3 cg3 by (simp add: gen_pre_def) (simp add: s3'_def)
  from loop [OF pre3] obtain s4 ys4 where r4: "generate_all A s3' chs (level + 1) = Inr s4"
    and po4: "gen_all_post b pgs (p @ [parC]) s3' (xs @ ys2 @ [ob, tb]) chs s4 ys4"
    by blast
  from po4 have pre4: "gen_pre b pgs (p @ [parC]) s4 ((xs @ ys2 @ [ob, tb]) @ ys4)"
    and ext4: "gens_extend s3' s4" and par4: "parent s4 = parent s3'"
    and lv4: "if chs = [] then s4 = s3' else last_on_spine b s4"
    by (simp_all add: gen_all_post_def)
  from pre4 have inv4: "build_inv b pgs s4 ((xs @ ys2 @ [ob, tb]) @ ys4)"
    and spO4: "spine (doc s4) b (p @ [parC]) (containerOf s4 (parent s4))"
    by (simp_all add: gen_pre_def)
  note iv4 = build_invD [OF inv4]
  from ext4 have ge4: "length (genElems s3') \<le> length (genElems s4)" "length (doc s3') \<le> length (doc s4)"
    "populateCnt s3' \<le> populateCnt s4"
    and c4: "\<And>i. i < length (genElems s3') \<Longrightarrow> containerOf s4 i = containerOf s3' i"
    by (simp_all add: gens_extend_def)
  have g3': "length (genElems s3') = Suc (Suc g)" by (simp add: s3'_def g3)
  have c4g: "containerOf s4 g = ob" using c4 [of g] cg3 g3' by simp
  have spO4': "spine (doc s4) b (p @ [parC]) ob"
    using spO4 par4 c4g by (simp add: s3'_def)
  have lv4': "last_on_spine b s4"
  proof (cases "chs = []")
    case True
    with lv4 have "s4 = s3'" by simp
    moreover have "last_on_spine b s3'"
      unfolding last_on_spine_def using spO3 cg3 by (intro exI [of _ g] exI [of _ "p @ [parC]"])
        (simp add: s3'_def f3)
    ultimately show ?thesis by simp
  next
    case False
    with lv4 show ?thesis by simp
  qed
  define s5 where "s5 = gen_close s4 (insertionPoint s3) (parent s3) tb hasChildren"
  have ip3: "insertionPoint s3 = insertionPoint s" "parent s3 = parent s"
    by (simp_all add: f3 f2 f1)
  have c5: "\<And>i. containerOf s5 i = containerOf s4 i"
    by (simp add: s5_def containerOf_def)
  have gok5: "gens_ok b s5"
  proof (rule gens_okI)
    show "insertionPoint s5 < length (genElems s5)" "parent s5 < length (genElems s5)"
      using gk(1,2) ge4(1) g3' by (simp_all add: s5_def ip3 g_def)
    show "\<And>l. lastVisit s5 = Some l \<Longrightarrow> l < length (genElems s5)"
      using gens_okD(3) [OF iv4(1)] by (simp add: s5_def)
    show "\<And>i. i < length (genElems s5) \<Longrightarrow> b \<le> containerOf s5 i \<and> containerOf s5 i < length (doc s5)"
      using gens_okD(4) [OF iv4(1)] by (simp add: c5) (simp add: s5_def)
  qed
  have inv5: "build_inv b pgs s5 (xs @ (ys2 @ [ob, tb] @ ys4))"
  proof (rule build_invI [OF gok5])
    show "tree_ok b s5 (xs @ ys2 @ [ob, tb] @ ys4)"
      using tree_ok_frame [OF iv4(2), of s5] by (simp add: s5_def)
    show "pages_ok pgs s5" using iv4(3) by (simp add: pages_ok_def s5_def)
    show "log_ok pgs s5" using iv4(4) by (simp add: log_ok_def s5_def)
    show "1 \<le> populateCnt s5" using iv4(5) by (simp add: s5_def)
    show "stubs_ok s5 (xs @ ys2 @ [ob, tb] @ ys4) (nat (populateCnt s5 - 1))"
      using iv4(6) by (simp add: stubs_ok_def s5_def)
  qed
  have ext5: "gens_extend s s5"
    unfolding gens_extend_def
  proof (intro conjI allI impI)
    show "length (genElems s) \<le> length (genElems s5)" using ge4(1) g3' by (simp add: s5_def g_def)
    show "length (doc s) \<le> length (doc s5)"
      using ge4(2) l3 ob_tb by (simp add: s5_def s3'_def ob_def)
    show "populateCnt s \<le> populateCnt s5"
      using ge4(3) cm2 by (simp add: s5_def s3'_def f3 f1)
    fix i assume "i < length (genElems s)"
    then have i: "i < g" by (simp add: g_def)
    then have "containerOf s4 i = containerOf s3' i" using c4 [of i] g3' by simp
    also have "\<dots> = containerOf s i" using i c3 [of i] c2 c1 [of i] by (simp add: s3'_def)
    finally show "containerOf s5 i = containerOf s i" by (simp add: c5)
  qed
  have sp5: "spine (doc s5) b (p @ [containerOf s (parent s)]) (containerOf s5 g)"
  proof -
    have "spine (doc s5) b (p @ [parC]) ob"
      using spine_frame [OF spO4', of "doc s5"] by (simp add: s5_def)
    then show ?thesis by (simp only: c5 c4g parC_def)
  qed
  have lv5: "last_on_spine b s5"
  proof -
    from lv4' obtain l q where l: "lastVisit s4 = Some l" and q: "spine (doc s4) b q (containerOf s4 l)"
      by (auto simp add: last_on_spine_def)
    have "spine (doc s5) b q (containerOf s5 l)"
      unfolding c5 using spine_frame [OF q, of "doc s5"] by (simp add: s5_def)
    with l show ?thesis by (auto simp add: last_on_spine_def s5_def)
  qed
  have post: "gen_post b pgs p s xs g s5 (ys2 @ [ob, tb] @ ys4)"
    unfolding gen_post_def
    using inv5 ext5 sp5 lv5 ge4(1) g3' by (simp add: s5_def ip3)
  have run: "generate A s (OutlineItemData ttl posn chs) level = Inr (g, s5)"
    unfolding generate_phases go
    using r2 gt r4
    by (simp add: Let_def pos_def [symmetric] hasChildren_def [symmetric]
        s3'_def [symmetric] s5_def del: generate.simps generate_all.simps)
  from run post show ?thesis by blast
qed

lemma gens_extend_refl: "gens_extend s s"
  by (simp add: gens_extend_def)

lemma gens_extend_trans:
  "gens_extend s s1 \<Longrightarrow> gens_extend s1 s2 \<Longrightarrow> gens_extend s s2"
  by (auto simp add: gens_extend_def)

lemma gen_all_step:
  assumes each: "\<And>item s0 xs0 p0. item \<in> set items \<Longrightarrow> gen_pre b pgs p0 s0 xs0 \<Longrightarrow>
        \<exists>node s' ys. generate A s0 item level = Inr (node, s') \<and> gen_post b pgs p0 s0 xs0 node s' ys"
    and pre: "gen_pre b pgs p s xs"
  shows "\<exists>s' ys. generate_all A s items level = Inr s' \<and> gen_all_post b pgs p s xs items s' ys"
  using each pre
proof (induction items arbitrary: s xs)
  case Nil
  have "gen_all_post b pgs p s xs [] s []"
    using Nil.prems(2) by (simp add: gen_all_post_def gens_extend_refl)
  then show ?case by (intro exI [of _ s] exI [of _ "[]"]) simp
next
  case (Cons item items)
  from Cons.prems(1) [of item, OF _ Cons.prems(2)]
  obtain node s1 ys1 where r1: "generate A s item level = Inr (node, s1)"
    and po1: "gen_post b pgs p s xs node s1 ys1"
    by auto
  define parC where "parC = containerOf s (parent s)"
  define s1' where "s1' = s1\<lparr>insertionPoint := node\<rparr>"
  from Cons.prems(2) have inv: "build_inv b pgs s xs" by (simp add: gen_pre_def)
  note gk = gens_okD [OF build_invD(1) [OF inv]]
  from po1 have inv1: "build_inv b pgs s1 (xs @ ys1)" and ext1: "gens_extend s s1"
    and par1: "parent s1 = parent s" and nd: "node < length (genElems s1)"
    and sp1: "spine (doc s1) b (p @ [parC]) (containerOf s1 node)"
    and lv1: "last_on_spine b s1"
    by (simp_all add: gen_post_def parC_def)
  note iv1 = build_invD [OF inv1]
  note gk1 = gens_okD [OF iv1(1)]
  have cp: "containerOf s1 (parent s1) = parC"
    using ext1 gk(2) par1 by (simp add: gens_extend_def parC_def)
  from spine_butlast [OF sp1 refl] have spP1: "spine (doc s1) b p parC" by simp
  have c1': "\<And>i. containerOf s1' i = containerOf s1 i" by (simp add: s1'_def)
  have gok: "gens_ok b s1'"
    using gk1 nd by (intro gens_okI) (simp_all add: s1'_def c1' [unfolded s1'_def])
  have inv1': "build_inv b pgs s1' (xs @ ys1)"
    using iv1 gok
    by (intro build_invI) (simp_all add: s1'_def tree_ok_def pages_ok_def log_ok_def stubs_ok_def)
  have pre1: "gen_pre b pgs p s1' (xs @ ys1)"
    unfolding gen_pre_def using inv1' spP1 sp1 cp
    by (simp add: c1') (simp add: s1'_def par1)
  have each': "\<And>item s0 xs0 p0. item \<in> set items \<Longrightarrow> gen_pre b pgs p0 s0 xs0 \<Longrightarrow>
        \<exists>node s' ys. generate A s0 item level = Inr (node, s') \<and> gen_post b pgs p0 s0 xs0 node s' ys"
    using Cons.prems(1) by simp
  from Cons.IH [OF each' pre1]
  obtain s2 ys2 where r2: "generate_all A s1' items level = Inr s2"
    and po2: "gen_all_post b pgs p s1' (xs @ ys1) items s2 ys2"
    by blast
  from po2 have pre2: "gen_pre b pgs p s2 ((xs @ ys1) @ ys2)" and ext2: "gens_extend s1' s2"
    and par2: "parent s2 = parent s1'"
    and lv2: "if items = [] then s2 = s1' else last_on_spine b s2"
    by (simp_all add: gen_all_post_def)
  have ext1': "gens_extend s s1'"
    using ext1 by (simp add: gens_extend_def s1'_def c1' [unfolded s1'_def])
  have lv1': "last_on_spine b s1'"
    using lv1 by (simp add: last_on_spine_def s1'_def c1' [unfolded s1'_def])
  have lv: "last_on_spine b s2"
    using lv2 lv1' by (cases "items = []") simp_all
  have "gen_all_post b pgs p s xs (item # items) s2 (ys1 @ ys2)"
    unfolding gen_all_post_def
    using pre2 gens_extend_trans [OF ext1' ext2] par2 par1 lv by (simp add: s1'_def)
  moreover have "generate_all A s (item # items) level = Inr s2"
    using r1 r2 by (simp add: s1'_def del: generate.simps)
  ultimately show ?case by blast
qed

lemma generate_ok:
  "gen_pre b pgs p s xs \<Longrightarrow>
     \<exists>node s' ys. generate A s item level = Inr (node, s') \<and> gen_post b pgs p s xs node s' ys"
proof (induction item arbitrary: p s xs level)
  case (OutlineItemData ttl posn chs)
  have loop: "\<And>s0 xs0 p0. gen_pre b pgs p0 s0 xs0 \<Longrightarrow>
        \<exists>s' ys. generate_all A s0 chs (level + 1) = Inr s' \<and> gen_all_post b pgs p0 s0 xs0 chs s' ys"
    using OutlineItemData.IH by (intro gen_all_step) auto
  from gen_step [OF OutlineItemData.prems loop] show ?case .
qed

lemma generate_all_ok:
  "gen_pre b pgs p s xs \<Longrightarrow>
     \<exists>s' ys. generate_all A s items level = Inr s' \<and> gen_all_post b pgs p s xs items s' ys"
  using generate_ok by (intro gen_all_step) auto

lemma new_GenContext_pre: "gen_pre (length h) pgs [] (new_GenContext h pgs) [length h]"
proof -
  let ?s = "new_GenContext h pgs" and ?b = "length h"
  have d: "doc ?s = h @ [\<lparr>tagName = ''div'', attributes = [], classList = [], textContent = [],
             style = [], listeners = [], children = []\<rparr>]"
    and f: "pages ?s = pgs" "genElems ?s = [\<lparr>gen_children = [], gen_container = ?b\<rparr>]"
      "populateCnt ?s = 1" "insertionPoint ?s = 0" "parent ?s = 0" "lastVisit ?s = None"
      "populateCntLog ?s = [1]"
    by (simp_all add: new_GenContext_def createElement_def)
  have c: "containerOf ?s 0 = ?b" by (simp add: containerOf_def f)
  have "gens_ok ?b ?s" by (simp add: gens_ok_def f d containerOf_def)
  moreover have "preorder (Suc 0) (doc ?s) ?b = Some [?b]" by (simp add: d)
  then have "tree_ok ?b ?s [?b]" unfolding tree_ok_def by (intro conjI exI [of _ "Suc 0"]) (simp_all add: d)
  moreover have "pages_ok pgs ?s" by (simp add: pages_ok_def f)
  moreover have "log_ok pgs ?s" by (simp add: log_ok_def f)
  moreover have "stubs_ok ?s [?b] (nat (populateCnt ?s - 1))"
    unfolding stubs_ok_def by (intro conjI exI [of _ "[]"]) (simp_all add: f)
  ultimately have "build_inv ?b pgs ?s [?b]" by (simp add: build_inv_def f)
  moreover have "spine (doc ?s) ?b [] (containerOf ?s (parent ?s))"
    by (simp add: f c spine.here)
  ultimately show ?thesis by (simp add: gen_pre_def f)
qed

text \<open>
  The construction of the target tree returns. Its root is the element made by the new
  context; \<open>xs\<close> is the tree in document order, and the placeholders of all pages are,
  in the order of the pages, the elements of \<open>xs\<close> that are the placeholder of a page.
\<close>

lemma generateOutline_tree:
  "\<exists>s xs. generateOutline A h pgs items = Inr s
     \<and> tree_ok (length h) s xs \<and> gens_ok (length h) s \<and> pages_ok pgs s \<and> log_ok pgs s
     \<and> populateCnt s = int (length pgs) + 1
     \<and> stubs_ok s xs (length pgs)
     \<and> containerOf s 0 = length h"
proof -
  let ?b = "length h" and ?c = "new_GenContext h pgs"
  have f: "insertionPoint ?c = 0" "parent ?c = 0" "lastVisit ?c = None"
    "length (genElems ?c) = Suc 0"
    by (simp_all add: new_GenContext_def createElement_def)
  have c0: "containerOf ?c 0 = ?b" by (simp add: containerOf_def new_GenContext_def createElement_def)
  from generate_all_ok [OF new_GenContext_pre, where A = A and items = items and level = 1]
  obtain s1 ys where r1: "generate_all A ?c items 1 = Inr s1"
    and po: "gen_all_post ?b pgs [] ?c [?b] items s1 ys"
    by blast
  from po have pre1: "gen_pre ?b pgs [] s1 ([?b] @ ys)" and ext: "gens_extend ?c s1"
    and par: "parent s1 = parent ?c"
    and lv: "if items = [] then s1 = ?c else last_on_spine ?b s1"
    by (simp_all add: gen_all_post_def)
  from pre1 have inv1: "build_inv ?b pgs s1 ([?b] @ ys)" by (simp add: gen_pre_def)
  note iv = build_invD [OF inv1]
  have c1: "containerOf s1 0 = ?b" using ext c0 f by (simp add: gens_extend_def)
  define nxt where "nxt = (case lastVisit s1 of None \<Rightarrow> 0 | Some l \<Rightarrow> l)"
  have "\<exists>q. spine (doc s1) ?b q (containerOf s1 nxt)"
  proof (cases "items = []")
    case True
    with lv have "s1 = ?c" by simp
    then show ?thesis by (auto simp add: nxt_def f c0 intro: spine.here)
  next
    case False
    with lv show ?thesis by (auto simp add: last_on_spine_def nxt_def)
  qed
  then obtain q where sp: "spine (doc s1) ?b q (containerOf s1 nxt)" by blast
  from spliceCanvas_ok [OF iv(2) sp refl iv(6) iv(5) iv(3) iv(4), of A "int (length pgs) + 1"]
  obtain s2 ys2 where r2: "spliceCanvas A s1 nxt (int (length pgs) + 1) = Inr s2"
    and f2: "insertionPoint s2 = insertionPoint s1" "parent s2 = parent s1" "lastVisit s2 = lastVisit s1"
    and g2: "length (genElems s2) = length (genElems s1)" and c2: "\<forall>i. containerOf s2 i = containerOf s1 i"
    and pg2: "pages_ok pgs s2" and lg2: "log_ok pgs s2"
    and l2: "length (doc s1) \<le> length (doc s2)"
    and t2: "tree_ok ?b s2 (([?b] @ ys) @ ys2)"
    and cm: "populateCnt s2 = max (min (int (length pgs) + 1) (int (length pgs) + 1)) (populateCnt s1)"
    and st2: "stubs_ok s2 (([?b] @ ys) @ ys2) (nat (populateCnt s2 - 1))"
    by blast
  from iv(4) have "populateCnt s1 \<le> int (length pgs) + 1"
    by (auto simp add: log_ok_def dest: last_in_set)
  with cm have cnt: "populateCnt s2 = int (length pgs) + 1" by simp
  have gok: "gens_ok ?b s2"
  proof (rule gens_okI)
    show "insertionPoint s2 < length (genElems s2)" "parent s2 < length (genElems s2)"
      using gens_okD(1,2) [OF iv(1)] by (simp_all add: f2 g2)
    show "\<And>l. lastVisit s2 = Some l \<Longrightarrow> l < length (genElems s2)"
      using gens_okD(3) [OF iv(1)] by (simp add: f2 g2)
    fix g assume "g < length (genElems s2)"
    then have "length h \<le> containerOf s1 g \<and> containerOf s1 g < length (doc s1)"
      using gens_okD(4) [OF iv(1), of g] by (simp add: g2)
    with l2 c2 show "length h \<le> containerOf s2 g \<and> containerOf s2 g < length (doc s2)"
      by simp
  qed
  have run: "generateOutline A h pgs items = Inr s2"
    using r1 r2 by (simp add: generateOutline_def Let_def f nxt_def cong: option.case_cong)
  show ?thesis
    using run t2 gok pg2 lg2 cnt st2 c2 c1
    by (intro exI [of _ s2] exI [of _ "([?b] @ ys) @ ys2"]) simp
qed

section \<open>The marks of the generated elements\<close>

lemma same_marks_refl: "same_marks d d"
  by (simp add: same_marks_def)

lemma same_marks_trans: "same_marks d d1 \<Longrightarrow> same_marks d1 d2 \<Longrightarrow> same_marks d d2"
  by (auto simp add: same_marks_def)

lemma same_marksD:
  "same_marks d d' \<Longrightarrow> r < length d \<Longrightarrow>
     tagName (d' ! r) = tagName (d ! r) \<and> attributes (d' ! r) = attributes (d ! r)
     \<and> classList (d' ! r) = classList (d ! r) \<and> textContent (d' ! r) = textContent (d ! r)"
  by (auto simp add: same_marks_def marks_def)

lemma same_marks_tagged:
  assumes "same_marks d d'" and "r < length d"
  shows "outline_tagged A d' r = outline_tagged A d r"
    and "title_tagged A d' r = title_tagged A d r"
    and "placeholder_tagged A i d' r = placeholder_tagged A i d r"
  using same_marksD [OF assms]
  by (simp_all add: outline_tagged_def title_tagged_def placeholder_tagged_def
      getAttribute_def classList_contains_def cong: option.case_cong)

lemma marks_remove_node: "r < length h \<Longrightarrow> marks (remove_node h c ! r) = marks (h ! r)"
  by (simp add: remove_node_def marks_def)

lemma marks_append_node: "r < length h \<Longrightarrow> marks (append_node h p c ! r) = marks (h ! r)"
  using marks_remove_node [of r h c]
  by (auto simp add: append_node_def Let_def nth_list_update_any marks_def length_remove_node)

lemma same_marks_append_node: "same_marks h (append_node h p c)"
  by (simp add: same_marks_def marks_append_node)

lemma same_marks_style: "same_marks h (set_style h r n v)"
  by (simp add: same_marks_def set_style_def marks_def nth_list_update_any)

lemma same_marks_listener: "same_marks h (addEventListener h r n v)"
  by (simp add: same_marks_def addEventListener_def marks_def nth_list_update_any)

lemma same_marks_push: "same_marks (doc s) (doc (push s this child))"
  by (simp add: push_def Let_def same_marks_append_node)

lemma same_marks_gen_close: "same_marks (doc s) (doc (gen_close s i0 p0 t hc))"
  by (auto simp add: gen_close_def Let_def same_marks_refl
      intro: same_marks_trans [OF same_marks_style] same_marks_trans [OF same_marks_style same_marks_listener]
        same_marks_trans [OF same_marks_style same_marks_trans [OF same_marks_style same_marks_listener]])

lemma gen_open_doc:
  "doc (snd (gen_open A s ttl)) =
     tagPatchId A (setAttribute (classList_add
         (doc s @ [\<lparr>tagName = ''div'', attributes = [], classList = [], textContent = [],
                    style = [], listeners = [], children = []\<rparr>])
         (length (doc s)) ''typst-outline'') (length (doc s)) ''data-title'' ttl)
       (length (doc s)) (''outline:'' @ ttl)"
  by (simp add: gen_open_def createElement_def new_GenElem_def Let_def)

lemma same_marks_gen_open: "same_marks (doc s) (doc (snd (gen_open A s ttl)))"
  by (simp add: same_marks_def gen_open_old)

lemma gen_open_tagged:
  "attrs_distinct A \<Longrightarrow> outline_tagged A (doc (snd (gen_open A s ttl))) (length (doc s))"
  unfolding gen_open_doc
  by (auto simp add: outline_tagged_def attrs_distinct_def tagPatchId_def setAttribute_def
      classList_add_def getAttribute_def classList_contains_def update_conv')

lemma title_doc_tagged:
  assumes "attrs_distinct A"
  shows "title_tagged A (tagPatchId A
                    (set_textContent
                      (classList_add
                        (classList_add (d @ [\<lparr>tagName = ''span'', attributes = [], classList = [],
                             textContent = [], style = [], listeners = [], children = []\<rparr>])
                           (length d) ''typst-outline-title'')
                        (length d) lv)
                      (length d) ttl)
                    (length d) (''title:'' @ ttl)) (length d)"
  using assms
  by (auto simp add: title_tagged_def attrs_distinct_def tagPatchId_def setAttribute_def
      classList_add_def set_textContent_def getAttribute_def classList_contains_def update_conv')

lemma title_doc_marks:
  "same_marks d (tagPatchId A
                    (set_textContent
                      (classList_add
                        (classList_add (d @ [e])
                           (length d) c1)
                        (length d) c2)
                      (length d) ttl)
                    (length d) tid)"
  by (simp add: same_marks_def marks_def tagPatchId_def setAttribute_def
      classList_add_def set_textContent_def nth_list_update_any nth_append)

lemma same_marks_gen_title: "same_marks (doc s) (doc (snd (gen_title A s g ttl level)))"
  unfolding gen_title_unfold
  by (rule same_marks_trans [OF _ same_marks_push]) (simp add: push_def Let_def,
      rule same_marks_trans [OF title_doc_marks same_marks_append_node])

lemma gen_title_tagged:
  assumes "attrs_distinct A"
  shows "title_tagged A (doc (snd (gen_title A s g ttl level))) (length (doc s))"
proof -
  let ?D = "tagPatchId A
                    (set_textContent
                      (classList_add
                        (classList_add (doc s @ [\<lparr>tagName = ''span'', attributes = [], classList = [],
                             textContent = [], style = [], listeners = [], children = []\<rparr>])
                           (length (doc s)) ''typst-outline-title'')
                        (length (doc s)) (''level-'' @ toString level))
                      (length (doc s)) ttl)
                    (length (doc s)) (''title:'' @ ttl)"
  have "same_marks ?D (doc (snd (gen_title A s g ttl level)))"
    unfolding gen_title_unfold
    by (rule same_marks_trans [OF _ same_marks_push]) (simp add: push_def Let_def same_marks_append_node)
  moreover have "length (doc s) < length ?D" by simp
  ultimately show ?thesis
    using title_doc_tagged [OF assms, of "doc s"] by (simp add: same_marks_tagged)
qed

lemma pushCanvas_doc:
  "doc (pushCanvas A s this k) =
     append_node (setAttribute (setAttribute
        (doc s @ [\<lparr>tagName = ''div'', attributes = [], classList = [], textContent = [],
                    style = [], listeners = [], children = []\<rparr>])
        (length (doc s)) (Tid A) (''canvas:'' @ toString (index (pages s ! k))))
        (length (doc s)) ''data-page-number'' (toString (index (pages s ! k))))
       (gen_container (genElems s ! this)) (length (doc s))"
  by (simp add: pushCanvas_def createElement_def Let_def)

lemma same_marks_pushCanvas: "same_marks (doc s) (doc (pushCanvas A s this k))"
  unfolding pushCanvas_doc
  by (rule same_marks_trans [OF _ same_marks_append_node])
    (simp add: same_marks_def marks_def setAttribute_def nth_list_update_any nth_append)

lemma pushCanvas_tagged:
  assumes "attrs_distinct A"
  shows "placeholder_tagged A (index (pages s ! k)) (doc (pushCanvas A s this k)) (length (doc s))"
proof -
  let ?D = "setAttribute (setAttribute
        (doc s @ [\<lparr>tagName = ''div'', attributes = [], classList = [], textContent = [],
                    style = [], listeners = [], children = []\<rparr>])
        (length (doc s)) (Tid A) (''canvas:'' @ toString (index (pages s ! k))))
        (length (doc s)) ''data-page-number'' (toString (index (pages s ! k)))"
  have "placeholder_tagged A (index (pages s ! k)) ?D (length (doc s))"
    using assms
    by (auto simp add: placeholder_tagged_def attrs_distinct_def setAttribute_def getAttribute_def update_conv')
  moreover have "same_marks ?D (doc (pushCanvas A s this k))"
    unfolding pushCanvas_doc by (rule same_marks_append_node)
  moreover have "length (doc s) < length ?D" by simp
  ultimately show ?thesis by (simp add: same_marks_tagged)
qed

lemma marks_inv_frame:
  assumes inv: "marks_inv A b s k" and sm: "same_marks (doc s) (doc s')" and pg: "pages s' = pages s"
    and new: "\<And>r. length (doc s) \<le> r \<Longrightarrow> r < length (doc s') \<Longrightarrow>
                outline_tagged A (doc s') r \<or> title_tagged A (doc s') r"
  shows "marks_inv A b s' k"
proof -
  from inv have b: "b < length (doc s)" and a: "attributes (doc s ! b) = []" and k: "k \<le> length (pages s)"
    and el: "\<And>r. b < r \<Longrightarrow> r < length (doc s) \<Longrightarrow>
           outline_tagged A (doc s) r \<or> title_tagged A (doc s) r \<or> (\<exists>j < k. stub (pages s ! j) = Some r)"
    and st: "\<And>j. j < k \<Longrightarrow> \<exists>r. stub (pages s ! j) = Some r \<and> b < r \<and> r < length (doc s)
           \<and> placeholder_tagged A (index (pages s ! j)) (doc s) r"
    by (auto simp add: marks_inv_def)
  from sm have le: "length (doc s) \<le> length (doc s')" by (simp add: same_marks_def)
  have 1: "b < length (doc s')" using b le by simp
  have 2: "attributes (doc s' ! b) = []" using same_marksD [OF sm b] a by simp
  have 3: "outline_tagged A (doc s') r \<or> title_tagged A (doc s') r \<or> (\<exists>j < k. stub (pages s' ! j) = Some r)"
    if "b < r" "r < length (doc s')" for r
  proof (cases "r < length (doc s)")
    case True
    with el [OF that(1)] show ?thesis by (simp add: same_marks_tagged [OF sm True] pg)
  next
    case False
    with new [of r] that show ?thesis by auto
  qed
  have 4: "\<exists>r. stub (pages s' ! j) = Some r \<and> b < r \<and> r < length (doc s')
           \<and> placeholder_tagged A (index (pages s' ! j)) (doc s') r" if "j < k" for j
  proof -
    from st [OF that] obtain r where r: "stub (pages s ! j) = Some r" "b < r" "r < length (doc s)"
      "placeholder_tagged A (index (pages s ! j)) (doc s) r" by blast
    then show ?thesis using le by (intro exI [of _ r]) (simp add: pg same_marks_tagged [OF sm r(3)])
  qed
  show ?thesis unfolding marks_inv_def using 1 2 3 4 k pg by simp
qed

lemma marks_inv_pushCanvas:
  assumes inv: "marks_inv A b s k" and k: "k < length (pages s)" and A: "attrs_distinct A"
  shows "marks_inv A b (pushCanvas A s this k) (Suc k)"
proof -
  let ?s' = "pushCanvas A s this k" and ?n = "length (doc s)"
  note sm = same_marks_pushCanvas [of s A this k]
  from inv have b: "b < length (doc s)" and a: "attributes (doc s ! b) = []"
    and el: "\<And>r. b < r \<Longrightarrow> r < length (doc s) \<Longrightarrow>
           outline_tagged A (doc s) r \<or> title_tagged A (doc s) r \<or> (\<exists>j < k. stub (pages s ! j) = Some r)"
    and st: "\<And>j. j < k \<Longrightarrow> \<exists>r. stub (pages s ! j) = Some r \<and> b < r \<and> r < length (doc s)
           \<and> placeholder_tagged A (index (pages s ! j)) (doc s) r"
    by (auto simp add: marks_inv_def)
  have pj: "pages ?s' ! j = pages s ! j" if "j < k" for j using that by simp
  have pk: "stub (pages ?s' ! k) = Some ?n" "index (pages ?s' ! k) = index (pages s ! k)"
    using k by simp_all
  have 1: "b < length (doc ?s')" using b by simp
  have 2: "attributes (doc ?s' ! b) = []" using same_marksD [OF sm b] a by simp
  have 3: "outline_tagged A (doc ?s') r \<or> title_tagged A (doc ?s') r
         \<or> (\<exists>j < Suc k. stub (pages ?s' ! j) = Some r)"
    if "b < r" "r < length (doc ?s')" for r
  proof (cases "r < ?n")
    case True
    from el [OF that(1) True] show ?thesis
    proof (elim disjE exE conjE)
      fix j assume "j < k" "stub (pages s ! j) = Some r"
      then have "j < Suc k \<and> stub (pages ?s' ! j) = Some r" using pj [of j] by simp
      then show ?thesis by blast
    qed (simp_all add: same_marks_tagged [OF sm True])
  next
    case False
    with that have "r = ?n" by simp
    with pk(1) show ?thesis by blast
  qed
  have 4: "\<exists>r. stub (pages ?s' ! j) = Some r \<and> b < r \<and> r < length (doc ?s')
           \<and> placeholder_tagged A (index (pages ?s' ! j)) (doc ?s') r" if "j < Suc k" for j
  proof (cases "j < k")
    case True
    from st [OF True] obtain r where r: "stub (pages s ! j) = Some r" "b < r" "r < length (doc s)"
      "placeholder_tagged A (index (pages s ! j)) (doc s) r" by blast
    moreover from True have "k \<noteq> j" by simp
    ultimately show ?thesis
      by (intro exI [of _ r]) (simp add: same_marks_tagged [OF sm r(3)])
  next
    case False
    with that have j: "j = k" by simp
    show ?thesis unfolding j
      using pk b pushCanvas_tagged [OF A, of s k this] by (intro exI [of _ ?n]) simp
  qed
  have 5: "Suc k \<le> length (pages ?s')" using k by simp
  show ?thesis unfolding marks_inv_def using 1 2 3 4 5 by blast
qed

lemma marks_inv_fields [simp]:
  "marks_inv A b (s\<lparr>populateCnt := c\<rparr>) k = marks_inv A b s k"
  "marks_inv A b (s\<lparr>populateCntLog := l\<rparr>) k = marks_inv A b s k"
  "marks_inv A b (s\<lparr>insertionPoint := i\<rparr>) k = marks_inv A b s k"
  "marks_inv A b (s\<lparr>parent := p\<rparr>) k = marks_inv A b s k"
  "marks_inv A b (s\<lparr>lastVisit := v\<rparr>) k = marks_inv A b s k"
  by (simp_all add: marks_inv_def)

lemma spliceLoop_populateCnt:
  "spliceLoop A s nxt i until = Inr s' \<Longrightarrow> populateCnt s' = populateCnt s"
proof (induction A s nxt i until rule: spliceLoop.induct)
  case (1 A s nxt i until)
  show ?case
  proof (cases "i < until \<and> 1 \<le> i \<and> i \<le> int (length (pages s))")
    case True
    with "1.prems" have "spliceLoop A (pushCanvas A s nxt (nat (i - 1))) nxt (i + 1) until = Inr s'"
      by (subst (asm) spliceLoop.simps) simp
    with True have "populateCnt s' = populateCnt (pushCanvas A s nxt (nat (i - 1)))"
      by (intro "1.IH") simp_all
    then show ?thesis by (simp add: pushCanvas_def createElement_def Let_def)
  next
    case False
    with "1.prems" show ?thesis by (subst (asm) spliceLoop.simps) (auto split: if_splits)
  qed
qed

lemma spliceLoop_marks:
  assumes "spliceLoop A s nxt i until = Inr s'" and "marks_inv A b s (nat (i - 1))" and "1 \<le> i"
    and "attrs_distinct A"
  shows "marks_inv A b s' (nat (max i until - 1))"
  using assms
proof (induction A s nxt i until rule: spliceLoop.induct)
  case (1 A s nxt i until)
  show ?case
  proof (cases "i < until")
    case False
    with "1.prems"(1) have "s' = s" by (subst (asm) spliceLoop.simps) simp
    moreover from False have "max i until = i" by simp
    ultimately show ?thesis using "1.prems"(2) by simp
  next
    case True
    with "1.prems"(1) have i: "1 \<le> i \<and> i \<le> int (length (pages s))"
      by (subst (asm) spliceLoop.simps) (auto split: if_splits)
    with True "1.prems"(1)
    have r: "spliceLoop A (pushCanvas A s nxt (nat (i - 1))) nxt (i + 1) until = Inr s'"
      by (subst (asm) spliceLoop.simps) simp
    from i have k: "nat (i - 1) < length (pages s)" by linarith
    from marks_inv_pushCanvas [OF "1.prems"(2) k "1.prems"(4), of nxt]
    have "marks_inv A b (pushCanvas A s nxt (nat (i - 1))) (nat (i + 1 - 1))"
      using i by (simp add: Suc_nat_eq_nat_zadd1)
    with True i r "1.prems"(4) have "marks_inv A b s' (nat (max (i + 1) until - 1))"
      by (intro "1.IH") simp_all
    moreover from True have "max (i + 1) until = max i until" by simp
    ultimately show ?thesis by simp
  qed
qed

lemma spliceCanvas_marks:
  assumes r: "spliceCanvas A s nxt until0 = Inr s'"
    and inv: "marks_inv A b s (nat (populateCnt s - 1))" and c: "1 \<le> populateCnt s"
    and A: "attrs_distinct A"
  shows "marks_inv A b s' (nat (populateCnt s' - 1)) \<and> 1 \<le> populateCnt s'"
proof -
  let ?u = "min until0 (int (length (pages s)) + 1)"
  from r obtain s1 where r1: "spliceLoop A s nxt (populateCnt s) ?u = Inr s1"
    and s': "s' = s1\<lparr>populateCnt := max ?u (populateCnt s1),
                     populateCntLog := populateCntLog s1 @ [max ?u (populateCnt s1)]\<rparr>"
    by (auto simp add: spliceCanvas_def Let_def split: sum.splits)
  from spliceLoop_populateCnt [OF r1] have pc: "populateCnt s1 = populateCnt s" .
  from spliceLoop_marks [OF r1 inv c A]
  have "marks_inv A b s1 (nat (max (populateCnt s) ?u - 1))" .
  then show ?thesis using c by (simp add: s' pc max.commute)
qed

lemma gen_open_marks:
  assumes inv: "marks_inv A b s k" and A: "attrs_distinct A"
  shows "marks_inv A b (snd (gen_open A s ttl)) k"
proof (rule marks_inv_frame [OF inv same_marks_gen_open])
  show "pages (snd (gen_open A s ttl)) = pages s" by simp
next
  fix r assume "length (doc s) \<le> r" "r < length (doc (snd (gen_open A s ttl)))"
  then have "r = length (doc s)" by simp
  then show "outline_tagged A (doc (snd (gen_open A s ttl))) r \<or> title_tagged A (doc (snd (gen_open A s ttl))) r"
    using gen_open_tagged [OF A, of s ttl] by simp
qed

lemma gen_title_marks:
  assumes inv: "marks_inv A b s k" and A: "attrs_distinct A"
  shows "marks_inv A b (snd (gen_title A s g ttl level)) k"
proof (rule marks_inv_frame [OF inv same_marks_gen_title])
  show "pages (snd (gen_title A s g ttl level)) = pages s" by simp
next
  fix r assume "length (doc s) \<le> r" "r < length (doc (snd (gen_title A s g ttl level)))"
  then have "r = length (doc s)" by simp
  then show "outline_tagged A (doc (snd (gen_title A s g ttl level))) r
     \<or> title_tagged A (doc (snd (gen_title A s g ttl level))) r"
    using gen_title_tagged [OF A, of s g ttl level] by simp
qed

lemma gen_close_marks:
  assumes inv: "marks_inv A b s k"
  shows "marks_inv A b (gen_close s i0 p0 t hc) k"
proof (rule marks_inv_frame [OF inv same_marks_gen_close])
  show "pages (gen_close s i0 p0 t hc) = pages s" by simp
next
  fix r assume "length (doc s) \<le> r" "r < length (doc (gen_close s i0 p0 t hc))"
  then have False by simp
  then show "outline_tagged A (doc (gen_close s i0 p0 t hc)) r
     \<or> title_tagged A (doc (gen_close s i0 p0 t hc)) r" ..
qed

lemma gen_all_marks_step:
  assumes each: "\<And>item s0 node s1. item \<in> set items \<Longrightarrow> generate A s0 item level = Inr (node, s1) \<Longrightarrow>
        marks_inv A b s0 (nat (populateCnt s0 - 1)) \<and> 1 \<le> populateCnt s0 \<Longrightarrow>
        marks_inv A b s1 (nat (populateCnt s1 - 1)) \<and> 1 \<le> populateCnt s1"
    and run: "generate_all A s items level = Inr s'"
    and inv: "marks_inv A b s (nat (populateCnt s - 1)) \<and> 1 \<le> populateCnt s"
  shows "marks_inv A b s' (nat (populateCnt s' - 1)) \<and> 1 \<le> populateCnt s'"
  using each run inv
proof (induction items arbitrary: s)
  case Nil
  then show ?case by simp
next
  case (Cons item items)
  from Cons.prems(2) obtain node s1 where r1: "generate A s item level = Inr (node, s1)"
    and r2: "generate_all A (s1\<lparr>insertionPoint := node\<rparr>) items level = Inr s'"
    by (auto simp del: generate.simps split: sum.splits)
  from Cons.prems(1) [of item, OF _ r1 Cons.prems(3)]
  have "marks_inv A b s1 (nat (populateCnt s1 - 1)) \<and> 1 \<le> populateCnt s1" by simp
  then have i1: "marks_inv A b (s1\<lparr>insertionPoint := node\<rparr>) (nat (populateCnt (s1\<lparr>insertionPoint := node\<rparr>) - 1))
      \<and> 1 \<le> populateCnt (s1\<lparr>insertionPoint := node\<rparr>)" by simp
  show ?case
    by (rule Cons.IH [OF _ r2 i1]) (rule Cons.prems(1), simp_all)
qed

lemma generate_marks:
  assumes A: "attrs_distinct A"
  shows "generate A s item level = Inr (node, s') \<Longrightarrow>
     marks_inv A b s (nat (populateCnt s - 1)) \<and> 1 \<le> populateCnt s \<Longrightarrow>
     marks_inv A b s' (nat (populateCnt s' - 1)) \<and> 1 \<le> populateCnt s'"
proof (induction item arbitrary: s level node s')
  case (OutlineItemData ttl posn chs)
  obtain g s1 where go: "gen_open A s ttl = (g, s1)" by (cases "gen_open A s ttl")
  then have s1: "s1 = snd (gen_open A s ttl)" by simp
  define pos where "pos = (case posn of None \<Rightarrow> 0 | Some p \<Rightarrow> page_no p)"
  from OutlineItemData.prems(1) obtain s2 where r2: "spliceCanvas A s1 (insertionPoint s1) pos = Inr s2"
    unfolding generate_phases go pos_def by (auto simp add: Let_def split: sum.splits)
  obtain t s3 where gt: "gen_title A s2 g ttl level = (t, s3)" by (cases "gen_title A s2 g ttl level")
  then have s3: "s3 = snd (gen_title A s2 g ttl level)" by simp
  from OutlineItemData.prems(1) r2 gt obtain s4
    where r4: "generate_all A (s3\<lparr>parent := g, insertionPoint := g\<rparr>) chs (level + 1) = Inr s4"
      and s': "s' = gen_close s4 (insertionPoint s3) (parent s3) t
                 (max 0 (pos - populateCnt s1) + int (length chs) > 0)"
    unfolding generate_phases go pos_def
    by (auto simp add: Let_def simp del: generate_all.simps split: sum.splits)
  from OutlineItemData.prems(2) have i1: "marks_inv A b s1 (nat (populateCnt s1 - 1)) \<and> 1 \<le> populateCnt s1"
    unfolding s1 by (simp add: gen_open_marks [OF _ A])
  from spliceCanvas_marks [OF r2 _ _ A, of b] i1
  have i2: "marks_inv A b s2 (nat (populateCnt s2 - 1)) \<and> 1 \<le> populateCnt s2" by simp
  then have i3: "marks_inv A b s3 (nat (populateCnt s3 - 1)) \<and> 1 \<le> populateCnt s3"
    unfolding s3 by (simp add: gen_title_marks [OF _ A])
  define s3' where "s3' = s3\<lparr>parent := g, insertionPoint := g\<rparr>"
  from i3 have i3': "marks_inv A b s3' (nat (populateCnt s3' - 1)) \<and> 1 \<le> populateCnt s3'"
    by (simp add: s3'_def)
  have i4: "marks_inv A b s4 (nat (populateCnt s4 - 1)) \<and> 1 \<le> populateCnt s4"
    by (rule gen_all_marks_step [OF _ r4 [folded s3'_def] i3']) (rule OutlineItemData.IH, assumption+)
  then show ?case unfolding s' by (simp add: gen_close_marks)
qed

lemma generate_all_marks:
  assumes A: "attrs_distinct A" and run: "generate_all A s items level = Inr s'"
    and inv: "marks_inv A b s (nat (populateCnt s - 1)) \<and> 1 \<le> populateCnt s"
  shows "marks_inv A b s' (nat (populateCnt s' - 1)) \<and> 1 \<le> populateCnt s'"
  by (rule gen_all_marks_step [OF _ run inv]) (rule generate_marks [OF A])

lemma generateOutline_marks:
  assumes A: "attrs_distinct A" and run: "generateOutline A h pgs items = Inr s"
  shows "marks_inv A (length h) s (nat (populateCnt s - 1))"
proof -
  let ?c = "new_GenContext h pgs"
  have d: "doc ?c = h @ [\<lparr>tagName = ''div'', attributes = [], classList = [], textContent = [],
             style = [], listeners = [], children = []\<rparr>]" and p: "populateCnt ?c = 1"
    by (simp_all add: new_GenContext_def createElement_def)
  have i0: "marks_inv A (length h) ?c (nat (populateCnt ?c - 1)) \<and> 1 \<le> populateCnt ?c"
    by (auto simp add: marks_inv_def d p)
  from run obtain s1 nxt where r1: "generate_all A ?c items 1 = Inr s1"
    and r2: "spliceCanvas A s1 nxt (int (length pgs) + 1) = Inr s"
    by (auto simp add: generateOutline_def Let_def split: sum.splits)
  from generate_all_marks [OF A r1 i0] have i1: "marks_inv A (length h) s1 (nat (populateCnt s1 - 1))"
    and c1: "1 \<le> populateCnt s1" by simp_all
  from spliceCanvas_marks [OF r2 i1 c1 A] show ?thesis by simp
qed

section \<open>The target tree of a pass\<close>

lemma stubs_marks_filter:
  assumes inv: "marks_inv A b s k" and k: "k = length (pages s)"
    and st: "map stub (pages s) = map Some es"
    and xs: "set xs \<subseteq> {b..<length (doc s)}"
  shows "filter (\<lambda>r. getAttribute (doc s) r ''data-page-number'' \<noteq> None) xs
       = filter (\<lambda>r. r \<in> set es) xs"
proof (rule filter_cong [OF refl])
  fix r assume r: "r \<in> set xs"
  from st have len: "length es = length (pages s)" by (metis length_map)
  have nth: "stub (pages s ! j) = Some (es ! j)" if "j < length (pages s)" for j
    using st that len by (metis nth_map)
  from inv have b: "attributes (doc s ! b) = []"
    and el: "\<And>r. b < r \<Longrightarrow> r < length (doc s) \<Longrightarrow>
           outline_tagged A (doc s) r \<or> title_tagged A (doc s) r \<or> (\<exists>j < k. stub (pages s ! j) = Some r)"
    and ph: "\<And>j. j < k \<Longrightarrow> \<exists>r. stub (pages s ! j) = Some r \<and> b < r \<and> r < length (doc s)
           \<and> placeholder_tagged A (index (pages s ! j)) (doc s) r"
    by (auto simp add: marks_inv_def)
  show "(getAttribute (doc s) r ''data-page-number'' \<noteq> None) = (r \<in> set es)"
  proof
    assume a: "getAttribute (doc s) r ''data-page-number'' \<noteq> None"
    with b have "r \<noteq> b" by (auto simp add: getAttribute_def)
    with r xs have "b < r" "r < length (doc s)" by auto
    from el [OF this] a obtain j where "j < k" "stub (pages s ! j) = Some r"
      by (auto simp add: outline_tagged_def title_tagged_def)
    with nth [of j] k have "es ! j = r" "j < length es" by (simp_all add: len)
    then show "r \<in> set es" by (metis nth_mem)
  next
    assume "r \<in> set es"
    then obtain j where j: "j < length es" "es ! j = r" by (auto simp add: in_set_conv_nth)
    with ph [of j] nth [of j] k len
    show "getAttribute (doc s) r ''data-page-number'' \<noteq> None"
      by (auto simp add: placeholder_tagged_def)
  qed
qed

lemma generateOutline_placeholders:
  assumes A: "attrs_distinct A"
  shows "\<exists>s n xs es. generateOutline A h pgs items = Inr s
     \<and> preorder n (doc s) (length h) = Some xs \<and> distinct xs
     \<and> map stub (pages s) = map Some es
     \<and> filter (\<lambda>r. getAttribute (doc s) r ''data-page-number'' \<noteq> None) xs = es
     \<and> length es = length pgs
     \<and> (\<forall>j < length pgs. placeholder_tagged A (index (pgs ! j)) (doc s) (es ! j))
     \<and> marks_inv A (length h) s (length pgs)
     \<and> map index (pages s) = map index pgs
     \<and> log_ok pgs s \<and> populateCnt s = int (length pgs) + 1"
proof -
  from generateOutline_tree [of A h pgs items]
  obtain s xs where run: "generateOutline A h pgs items = Inr s"
    and t: "tree_ok (length h) s xs" and pg: "pages_ok pgs s" and lg: "log_ok pgs s"
    and pc: "populateCnt s = int (length pgs) + 1" and st: "stubs_ok s xs (length pgs)"
    by blast
  from t obtain n where n: "preorder n (doc s) (length h) = Some xs" and d: "distinct xs"
    and sub: "set xs \<subseteq> {length h..<length (doc s)}"
    by (auto simp add: tree_ok_def)
  from pg have len: "length (pages s) = length pgs" by (rule pages_ok_length)
  from st len obtain es where es: "map stub (pages s) = map Some es"
    and f: "filter (\<lambda>r. r \<in> set es) xs = es"
    by (auto simp add: stubs_ok_def)
  from generateOutline_marks [OF A run] pc
  have inv: "marks_inv A (length h) s (length pgs)" by simp
  have f': "filter (\<lambda>r. getAttribute (doc s) r ''data-page-number'' \<noteq> None) xs = es"
    using stubs_marks_filter [OF inv len [symmetric] es sub] f by simp
  from es have le: "length es = length pgs" using len by (metis length_map)
  have ix: "map index (pages s) = map index pgs"
    using pg unfolding pages_ok_def
    by (drule_tac f = "map index" in arg_cong) (simp add: comp_def)
  have ph: "\<forall>j < length pgs. placeholder_tagged A (index (pgs ! j)) (doc s) (es ! j)"
  proof (intro allI impI)
    fix j assume j: "j < length pgs"
    from inv j obtain r where r: "stub (pages s ! j) = Some r"
      "placeholder_tagged A (index (pages s ! j)) (doc s) r"
      by (auto simp add: marks_inv_def)
    from es j len le have "stub (pages s ! j) = Some (es ! j)" by (metis nth_map)
    with r have "es ! j = r" by simp
    moreover from ix j len have "index (pages s ! j) = index (pgs ! j)" by (metis nth_map)
    ultimately show "placeholder_tagged A (index (pgs ! j)) (doc s) (es ! j)" using r by simp
  qed
  from run n d es f' le ph inv ix lg pc show ?thesis by blast
qed

text \<open>
  C1. A pass over any pages and any outline items returns. In the target tree, read in
  document order from its root, the elements that carry a page number are, in this
  order and without repetition, the placeholders of the pages 1 to P, each carrying the
  index of its page. Every number assigned to populateCnt is at least the one before and
  lies between 1 and P + 1, and the last one is P + 1.
\<close>

theorem placeholders_cover_pages:
  assumes "attrs_distinct A"
  shows "\<exists>s n xs. generateOutline A h pgs items = Inr s
     \<and> preorder n (doc s) (length h) = Some xs \<and> distinct xs
     \<and> map Some (filter (\<lambda>r. getAttribute (doc s) r ''data-page-number'' \<noteq> None) xs)
         = map stub (pages s)
     \<and> map (\<lambda>r. getAttribute (doc s) r ''data-page-number'')
           (filter (\<lambda>r. getAttribute (doc s) r ''data-page-number'' \<noteq> None) xs)
         = map (\<lambda>page. Some (toString (index page))) pgs
     \<and> map index (pages s) = map index pgs
     \<and> sorted (populateCntLog s) \<and> set (populateCntLog s) \<subseteq> {1..int (length pgs) + 1}
     \<and> last (populateCntLog s) = populateCnt s \<and> populateCnt s = int (length pgs) + 1"
proof -
  from generateOutline_placeholders [OF assms, of h pgs items]
  obtain s n xs es where run: "generateOutline A h pgs items = Inr s"
    and n: "preorder n (doc s) (length h) = Some xs" and d: "distinct xs"
    and es: "map stub (pages s) = map Some es"
    and f: "filter (\<lambda>r. getAttribute (doc s) r ''data-page-number'' \<noteq> None) xs = es"
    and le: "length es = length pgs"
    and ph: "\<forall>j < length pgs. placeholder_tagged A (index (pgs ! j)) (doc s) (es ! j)"
    and ix: "map index (pages s) = map index pgs"
    and lg: "log_ok pgs s" and pc: "populateCnt s = int (length pgs) + 1"
    by blast
  have "map (\<lambda>r. getAttribute (doc s) r ''data-page-number'') es
      = map (\<lambda>page. Some (toString (index page))) pgs"
    using le ph by (auto simp add: list_eq_iff_nth_eq placeholder_tagged_def)
  with run n d es f ix lg pc show ?thesis
    by (intro exI [of _ s] exI [of _ n] exI [of _ xs]) (simp add: log_ok_def)
qed

theorem placeholders_cover_pages_witness:
  "attrs_distinct example_attrs
   \<and> (\<exists>s n xs. generateOutline example_attrs scenario_doc scenario_pages scenario_items = Inr s
     \<and> preorder n (doc s) (length scenario_doc) = Some xs \<and> distinct xs
     \<and> map Some (filter (\<lambda>r. getAttribute (doc s) r ''data-page-number'' \<noteq> None) xs)
         = map stub (pages s)
     \<and> map (\<lambda>r. getAttribute (doc s) r ''data-page-number'')
           (filter (\<lambda>r. getAttribute (doc s) r ''data-page-number'' \<noteq> None) xs)
         = map (\<lambda>page. Some (toString (index page))) scenario_pages
     \<and> map index (pages s) = map index scenario_pages
     \<and> sorted (populateCntLog s) \<and> set (populateCntLog s) \<subseteq> {1..int (length scenario_pages) + 1}
     \<and> last (populateCntLog s) = populateCnt s \<and> populateCnt s = int (length scenario_pages) + 1)"
  (is "?A \<and> ?P")
proof (rule conjI)
  show a: ?A by (simp add: attrs_distinct_def example_attrs_def)
  show ?P by (rule placeholders_cover_pages [OF a])
qed

section \<open>The tags of the generated elements\<close>







section \<open>The placeholder of a reused page\<close>






lemma pages_kept_doc [simp]: "pages_kept s (s'\<lparr>doc := d\<rparr>) = pages_kept s s'"
  by (simp add: pages_kept_def)











lemma armInserters_stub [simp]: "map stub (armInserters pgs) = map stub pgs"
  by (simp add: armInserters_def list_eq_iff_nth_eq)









section \<open>The scenario\<close>

lemma gen_open_eq:
  "gen_open A s ttl =
     (length (genElems s),
      s\<lparr>doc := tagPatchId A (setAttribute (classList_add
               (doc s @ [\<lparr>tagName = ''div'', attributes = [], classList = [], textContent = [],
                          style = [], listeners = [], children = []\<rparr>])
               (length (doc s)) ''typst-outline'') (length (doc s)) ''data-title'' ttl)
             (length (doc s)) (''outline:'' @ ttl),
        genElems := genElems s @ [\<lparr>gen_children = [], gen_container = length (doc s)\<rparr>]\<rparr>)"
  by (simp add: gen_open_def createElement_def new_GenElem_def Let_def)

lemma gen_title_eq:
  "gen_title A s g ttl level =
     (length (doc s),
      push ((push (s\<lparr>doc := tagPatchId A
                    (set_textContent
                      (classList_add
                        (classList_add (doc s @ [\<lparr>tagName = ''span'', attributes = [], classList = [],
                             textContent = [], style = [], listeners = [], children = []\<rparr>])
                           (length (doc s)) ''typst-outline-title'')
                        (length (doc s)) (''level-'' @ toString level))
                      (length (doc s)) ttl)
                    (length (doc s)) (''title:'' @ ttl),
                genElems := genElems s @ [\<lparr>gen_children = [], gen_container = length (doc s)\<rparr>]\<rparr>)
             g (GenElemRef (length (genElems s))))\<lparr>lastVisit := Some g\<rparr>)
       (parent s) (GenElemRef g))"
  by (simp add: gen_title_def createElement_def new_GenElem_def Let_def push_def)

lemma push_eq:
  "push s this child =
     s\<lparr>genElems := (genElems s)[this := (genElems s ! this)
                        \<lparr>gen_children := gen_children (genElems s ! this) @ [child]\<rparr>],
       doc := append_node (doc s) (gen_container (genElems s ! this)) (node_container s child)\<rparr>"
  by (simp add: push_def Let_def)

lemma append_node_eq:
  "append_node h p c =
     (remove_node h c)[p := (remove_node h c ! p)\<lparr>children := children (remove_node h c ! p) @ [c]\<rparr>]"
  by (simp add: append_node_def Let_def)

lemma pushCanvas_eq:
  "pushCanvas A s this k =
     s\<lparr>pages := (pages s)[k := (pages s ! k)\<lparr>stub := Some (length (doc s))\<rparr>],
       genElems := (genElems s)[this := (genElems s ! this)
                        \<lparr>gen_children := gen_children (genElems s ! this) @ [GenPage k]\<rparr>],
       doc := append_node (setAttribute (setAttribute
                (doc s @ [\<lparr>tagName = ''div'', attributes = [], classList = [], textContent = [],
                           style = [], listeners = [], children = []\<rparr>])
                (length (doc s)) (Tid A) (''canvas:'' @ toString (index (pages s ! k))))
                (length (doc s)) ''data-page-number'' (toString (index (pages s ! k))))
              (gen_container (genElems s ! this)) (length (doc s))\<rparr>"
  by (simp add: pushCanvas_def createElement_def Let_def)

lemma spliceCanvas_eq:
  "spliceCanvas A s nxt until0 =
     (case spliceLoop A s nxt (populateCnt s) (min until0 (int (length (pages s)) + 1)) of
        Inl e \<Rightarrow> Inl e
      | Inr s1 \<Rightarrow>
          Inr (s1\<lparr>populateCnt := max (min until0 (int (length (pages s)) + 1)) (populateCnt s1),
                  populateCntLog := populateCntLog s1
                     @ [max (min until0 (int (length (pages s)) + 1)) (populateCnt s1)]\<rparr>))"
  by (simp add: spliceCanvas_def Let_def)

lemma gen_close_eq:
  "gen_close s i0 p0 t hc =
     (if hc
      then s\<lparr>insertionPoint := i0, parent := p0,
             doc := addEventListener
                (set_style (set_style (doc s) t ''text-decoration'' ''underline'') t ''cursor'' ''pointer'')
                t ''click'' ToggleParentCollapsed\<rparr>
      else s\<lparr>insertionPoint := i0, parent := p0\<rparr>)"
  by (simp add: gen_close_def Let_def)

lemma generate_eq:
  "generate A s (OutlineItemData ttl posn chs) level =
     (case gen_open A s ttl of
        (outlineNode, s1) \<Rightarrow>
          (case spliceCanvas A s1 (insertionPoint s1) (case posn of None \<Rightarrow> 0 | Some p \<Rightarrow> page_no p) of
             Inl e \<Rightarrow> Inl e
           | Inr s2 \<Rightarrow>
               (case gen_title A s2 outlineNode ttl level of
                  (titleSpan, s3) \<Rightarrow>
                    (case generate_all A (s3\<lparr>parent := outlineNode, insertionPoint := outlineNode\<rparr>)
                            chs (level + 1) of
                       Inl e \<Rightarrow> Inl e
                     | Inr s4 \<Rightarrow>
                         Inr (outlineNode,
                              gen_close s4 (insertionPoint s3) (parent s3) titleSpan
                                (max 0 ((case posn of None \<Rightarrow> 0 | Some p \<Rightarrow> page_no p) - populateCnt s1)
                                   + int (length chs) > 0))))))"
  unfolding generate_phases by (simp add: Let_def)

lemma generateOutline_eq:
  "generateOutline A h pgs items =
     (case generate_all A (new_GenContext h pgs) items 1 of
        Inl e \<Rightarrow> Inl e
      | Inr ctx \<Rightarrow>
          spliceCanvas A ctx
            (case lastVisit ctx of None \<Rightarrow> insertionPoint (new_GenContext h pgs) | Some l \<Rightarrow> l)
            (int (length pgs) + 1))"
  by (simp add: generateOutline_def Let_def)

lemma new_GenContext_eq:
  "new_GenContext h pgs =
     \<lparr>doc = h @ [\<lparr>tagName = ''div'', attributes = [], classList = [], textContent = [],
                    style = [], listeners = [], children = []\<rparr>],
      pages = pgs, genElems = [\<lparr>gen_children = [], gen_container = length h\<rparr>],
      populateCnt = 1, insertionPoint = 0, parent = 0, lastVisit = None, populateCntLog = [1]\<rparr>"
  by (simp add: new_GenContext_def createElement_def)

lemma toString_digit: "toString 2 = ''2''" "toString 3 = ''3''"
  by (simp_all add: toString_def digits.simps)

lemmas run_defs =
  generate_eq generateOutline_eq new_GenContext_eq gen_open_eq gen_title_eq
  gen_close_eq spliceCanvas_eq spliceLoop_unfold pushCanvas_eq push_eq append_node_eq
  remove_node_def node_container_def tagPatchId_def setAttribute_def classList_add_def
  set_textContent_def set_style_def addEventListener_def
  example_element_def example_attrs_def toString_1 toString_digit

lemma attrs_distinctD:
  assumes "attrs_distinct A"
  shows "Tid A \<noteq> ReuseFrom A" "Tid A \<noteq> BadEquality A" "Tid A \<noteq> ''data-page-number''"
    "Tid A \<noteq> ''data-title''" "ReuseFrom A \<noteq> BadEquality A" "ReuseFrom A \<noteq> ''data-page-number''"
    "ReuseFrom A \<noteq> ''data-title''" "BadEquality A \<noteq> ''data-page-number''"
    "BadEquality A \<noteq> ''data-title''"
    "ReuseFrom A \<noteq> Tid A" "BadEquality A \<noteq> Tid A" "''data-page-number'' \<noteq> Tid A"
    "''data-title'' \<noteq> Tid A" "BadEquality A \<noteq> ReuseFrom A" "''data-page-number'' \<noteq> ReuseFrom A"
    "''data-title'' \<noteq> ReuseFrom A" "''data-page-number'' \<noteq> BadEquality A"
    "''data-title'' \<noteq> BadEquality A"
  using assms by (auto simp add: attrs_distinct_def)

lemma scenario_tree:
  assumes A: "attrs_distinct A" and ix: "map index pgs = [1, 2, 3]"
  shows "\<exists>s. generateOutline A h pgs scenario_items = Inr s
     \<and> length (doc s) = length h + 8
     \<and> gen_container (genElems s ! 0) = length h
     \<and> (\<forall>q < length h. children (h ! q) = [] \<longrightarrow> children (doc s ! q) = [])
     \<and> map (\<lambda>r. children (doc s ! r)) [length h ..< length h + 8]
         = [[length h + 1, length h + 3], [length h + 2, length h + 4, length h + 5], [],
            [length h + 6, length h + 7], [], [], [], []]
     \<and> map (node_label (doc s)) [length h ..< length h + 8]
         = [None, Some ''A'', None, Some ''B'', Some ''page:1'', Some ''page:2'', None, Some ''page:3'']
     \<and> map stub (pages s) = [Some (length h + 4), Some (length h + 5), Some (length h + 7)]"
proof -
  from ix obtain p1 p2 p3 where pgs: "pgs = [p1, p2, p3]"
    and i: "index p1 = 1" "index p2 = 2" "index p3 = 3"
    by (auto simp add: map_eq_Cons_conv)
  have u: "[length h ..< length h + 8] = [length h, length h + 1, length h + 2, length h + 3,
      length h + 4, length h + 5, length h + 6, length h + 7]"
    by (simp add: upt_rec)
  show ?thesis
    unfolding pgs u
    using i
    by (simp add: scenario_items_def nth_append list_update_append attrs_distinctD [OF A]
      node_label_def getAttribute_def
      run_defs del: generate.simps)
qed

lemma scenario_tree_facts:
  assumes A: "attrs_distinct A" and ix: "map index pgs = [1, 2, 3]"
  obtains s where "generateOutline A h pgs scenario_items = Inr s"
    and "length (doc s) = length h + 8" and "gen_container (genElems s ! 0) = length h"
    and "\<And>q. q < length h \<Longrightarrow> children (h ! q) = [] \<Longrightarrow> children (doc s ! q) = []"
    and "children (doc s ! length h) = [length h + 1, length h + 3]"
    and "children (doc s ! (length h + 1)) = [length h + 2, length h + 4, length h + 5]"
    and "children (doc s ! (length h + 2)) = []"
    and "children (doc s ! (length h + 3)) = [length h + 6, length h + 7]"
    and "children (doc s ! (length h + 4)) = []"
    and "children (doc s ! (length h + 5)) = []"
    and "children (doc s ! (length h + 6)) = []"
    and "children (doc s ! (length h + 7)) = []"
    and "map (node_label (doc s))
           [length h, length h + 1, length h + 2, length h + 4, length h + 5, length h + 3,
            length h + 6, length h + 7]
         = [None, Some ''A'', None, Some ''page:1'', Some ''page:2'', Some ''B'', None, Some ''page:3'']"
    and "map stub (pages s) = [Some (length h + 4), Some (length h + 5), Some (length h + 7)]"
proof -
  have u: "[length h ..< length h + 8] = [length h, length h + 1, length h + 2, length h + 3,
      length h + 4, length h + 5, length h + 6, length h + 7]"
    by (simp add: upt_rec)
  from scenario_tree [OF A ix, of h] obtain s where "generateOutline A h pgs scenario_items = Inr s"
    and "length (doc s) = length h + 8" and "gen_container (genElems s ! 0) = length h"
    and "\<forall>q < length h. children (h ! q) = [] \<longrightarrow> children (doc s ! q) = []"
    and "map (\<lambda>r. children (doc s ! r)) [length h ..< length h + 8]
         = [[length h + 1, length h + 3], [length h + 2, length h + 4, length h + 5], [],
            [length h + 6, length h + 7], [], [], [], []]"
    and "map (node_label (doc s)) [length h ..< length h + 8]
         = [None, Some ''A'', None, Some ''B'', Some ''page:1'', Some ''page:2'', None, Some ''page:3'']"
    and "map stub (pages s) = [Some (length h + 4), Some (length h + 5), Some (length h + 7)]"
    by (elim exE conjE)
  then show ?thesis
    unfolding u by (intro that [of s]) simp_all
qed

lemma inclusiveAncestor_fresh:
  assumes op: "\<And>p c. p < length d \<Longrightarrow> c \<in> set (children (d ! p)) \<Longrightarrow> c < b \<Longrightarrow> p < b"
    and "x < b" and "b \<le> a"
  shows "\<not> inclusiveAncestor n d a x"
  using assms(2)
proof (induction n arbitrary: x)
  case 0
  with assms(3) show ?case by simp
next
  case (Suc n)
  show ?case
  proof (cases "parentElement d x")
    case None
    with Suc.prems assms(3) show ?thesis by simp
  next
    case (Some p)
    from parentElement_SomeD [OF Some] op [of p x] Suc.prems have "p < b" by simp
    from Suc.IH [OF this] Some Suc.prems assms(3) show ?thesis by simp
  qed
qed

lemma insertBefore_fresh:
  assumes op: "\<And>p c. p < length d \<Longrightarrow> c \<in> set (children (d ! p)) \<Longrightarrow> c < b \<Longrightarrow> p < b"
    and "prev < b" and "b \<le> node"
  shows "insertBefore d prev node None = Inr (append_node d prev node)"
  using inclusiveAncestor_fresh [OF op assms(2,3), where n = "length d"]
  by (simp add: insertBefore_def Let_def insert_before_def append_node_def)

lemma old_parents_append_node:
  assumes op: "\<And>p c. p < length d \<Longrightarrow> c \<in> set (children (d ! p)) \<Longrightarrow> c < b \<Longrightarrow> p < b"
    and "prev < b" and "prev < length d"
    and "p < length (append_node d prev node)" and "c \<in> set (children (append_node d prev node ! p))"
    and "c < b"
  shows "p < b"
proof (cases "p = prev")
  case True
  with assms(2) show ?thesis by simp
next
  case False
  with assms(3,4,5) have "c \<in> set (children (d ! p))"
    by (simp add: children_append_node)
  with op [of p c] assms(4,6) show ?thesis by simp
qed

lemma node_label_append_node:
  "r < length d \<Longrightarrow> node_label (append_node d p c) r = node_label d r"
  using marks_append_node [of r d p c]
  by (simp add: node_label_def getAttribute_def marks_def cong: option.case_cong)

lemma scenario_first_render:
  assumes A: "attrs_distinct A" and ix: "map index pgs = [1, 2, 3]"
    and prev: "prev < length h" and empty: "children (h ! prev) = []" and X: "patchAttrs X = A"
  shows "\<exists>fin. patchOutlineEntry n X h prev pgs scenario_items = Some (Inr fin)
     \<and> children (doc fin ! prev) = [length h + 1, length h + 3]
     \<and> children (doc fin ! length h) = []
     \<and> preorder 4 (doc fin) prev
         = Some [prev, length h + 1, length h + 2, length h + 4, length h + 5, length h + 3,
                 length h + 6, length h + 7]
     \<and> map (node_label (doc fin))
           [length h + 1, length h + 2, length h + 4, length h + 5, length h + 3,
            length h + 6, length h + 7]
         = [Some ''A'', None, Some ''page:1'', Some ''page:2'', Some ''B'', None, Some ''page:3'']"
proof -
  define b where "b = length h"
  obtain s where g: "generateOutline A h pgs scenario_items = Inr s"
    and len: "length (doc s) = b + 8" and root: "gen_container (genElems s ! 0) = b"
    and old: "\<And>q. q < b \<Longrightarrow> children (h ! q) = [] \<Longrightarrow> children (doc s ! q) = []"
    and c: "children (doc s ! b) = [b + 1, b + 3]"
      "children (doc s ! (b + 1)) = [b + 2, b + 4, b + 5]"
      "children (doc s ! (b + 2)) = []"
      "children (doc s ! (b + 3)) = [b + 6, b + 7]"
      "children (doc s ! (b + 4)) = []"
      "children (doc s ! (b + 5)) = []"
      "children (doc s ! (b + 6)) = []"
      "children (doc s ! (b + 7)) = []"
    and lab: "map (node_label (doc s)) [b, b + 1, b + 2, b + 4, b + 5, b + 3, b + 6, b + 7]
         = [None, Some ''A'', None, Some ''page:1'', Some ''page:2'', Some ''B'', None, Some ''page:3'']"
    by (rule scenario_tree_facts [OF A ix, of h, folded b_def]) (rule that)
  from prev have pb: "prev < b" by (simp add: b_def)
  from old [OF pb empty] have cp: "children (doc s ! prev) = []" .
  define d where "d = doc s"
  have op: "p < b" if "p < length d" "c \<in> set (children (d ! p))" "c < b" for p c
  proof (rule ccontr)
    assume "\<not> p < b"
    with that(1) len obtain k where k: "p = b + k" "k < 8"
      by (metis d_def le_Suc_ex nat_add_left_cancel_less not_less)
    from k(2) consider "k = 0" | "k = 1" | "k = 2" | "k = 3" | "k = 4" | "k = 5" | "k = 6" | "k = 7"
      by linarith
    then show False using that(2,3) c k(1) by cases (auto simp add: d_def)
  qed
  define d1 where "d1 = append_node d prev (b + 1)"
  define d2 where "d2 = append_node d1 prev (b + 3)"
  have ld: "length d = b + 8" "length d1 = b + 8" "length d2 = b + 8"
    by (simp_all add: d_def d1_def d2_def len)
  have i1: "insertBefore d prev (b + 1) None = Inr d1"
    unfolding d1_def
  proof (rule insertBefore_fresh)
    show "\<And>p c. p < length d \<Longrightarrow> c \<in> set (children (d ! p)) \<Longrightarrow> c < b \<Longrightarrow> p < b" by (rule op)
    show "prev < b" by (rule pb)
    show "b \<le> b + 1" by simp
  qed
  have op1: "p < b" if "p < length d1" "c \<in> set (children (d1 ! p))" "c < b" for p c
  proof (rule old_parents_append_node [where d = d and prev = prev and node = "b + 1" and c = c])
    show "\<And>p c. p < length d \<Longrightarrow> c \<in> set (children (d ! p)) \<Longrightarrow> c < b \<Longrightarrow> p < b" by (rule op)
    show "prev < b" by (rule pb)
    show "prev < length d" using pb by (simp add: ld)
    show "p < length (append_node d prev (b + 1))" using that(1) by (simp add: d1_def)
    show "c \<in> set (children (append_node d prev (b + 1) ! p))" using that(2) by (simp add: d1_def)
    show "c < b" by (rule that(3))
  qed
  have i2: "insertBefore d1 prev (b + 3) None = Inr d2"
    unfolding d2_def
  proof (rule insertBefore_fresh)
    show "\<And>p c. p < length d1 \<Longrightarrow> c \<in> set (children (d1 ! p)) \<Longrightarrow> c < b \<Longrightarrow> p < b" by (rule op1)
    show "prev < b" by (rule pb)
    show "b \<le> b + 3" by simp
  qed
  have an: "append_nodes d prev [b + 1, b + 3] = Inr d2" using i1 i2 by simp
  have pl: "prev < b + 8" using pb by simp
  have ch1: "children (d1 ! q) =
      (if q = prev then removeAll (b + 1) (children (d ! prev)) @ [b + 1]
       else removeAll (b + 1) (children (d ! q)))" if "q < b + 8" for q
    unfolding d1_def using that pl by (simp add: children_append_node ld)
  have ch2: "children (d2 ! q) =
      (if q = prev then removeAll (b + 3) (children (d1 ! prev)) @ [b + 3]
       else removeAll (b + 3) (children (d1 ! q)))" if "q < b + 8" for q
    unfolding d2_def using that pl by (simp add: children_append_node ld)
  have ne: "prev \<noteq> b" "prev \<noteq> b + 1" "prev \<noteq> b + 2" "prev \<noteq> b + 3" "prev \<noteq> b + 4"
    "prev \<noteq> b + 5" "prev \<noteq> b + 6" "prev \<noteq> b + 7"
    using pb by simp_all
  have r: "children (d2 ! prev) = [b + 1, b + 3]" "children (d2 ! b) = []"
    "children (d2 ! (b + 1)) = [b + 2, b + 4, b + 5]"
    "children (d2 ! (b + 2)) = []"
    "children (d2 ! (b + 3)) = [b + 6, b + 7]"
    "children (d2 ! (b + 4)) = []"
    "children (d2 ! (b + 5)) = []"
    "children (d2 ! (b + 6)) = []"
    "children (d2 ! (b + 7)) = []"
    using c cp pl ne by (simp_all add: ch1 ch2 d_def [symmetric])
  have po: "preorder 4 d2 prev = Some [prev, b + 1, b + 2, b + 4, b + 5, b + 3, b + 6, b + 7]"
    using r by (simp add: eval_nat_numeral)
  have l2: "node_label d2 q = node_label d q" if "q < b + 8" for q
    using that by (simp add: d2_def d1_def node_label_append_node ld)
  have lab2: "map (node_label d2) [b + 1, b + 2, b + 4, b + 5, b + 3, b + 6, b + 7]
         = [Some ''A'', None, Some ''page:1'', Some ''page:2'', Some ''B'', None, Some ''page:3'']"
    using lab by (simp add: l2 d_def)
  define fin where "fin = s\<lparr>doc := d2, pages := armInserters (pages s)\<rparr>"
  have run: "patchOutlineEntry n X h prev pgs scenario_items = Some (Inr fin)"
    using g cp an [unfolded d_def] c(1)
    by (simp add: patchOutlineEntry_def X root fin_def del: patchOutlineChildren.simps append_nodes.simps)
  show ?thesis
    using run r(1,2) po lab2
    by (intro exI [of _ fin]) (simp add: fin_def b_def)
qed

lemma map_filter_of_map:
  "map f xs = ys \<Longrightarrow> List.map_filter f xs = map the (filter (\<lambda>y. y \<noteq> None) ys)"
  by (auto simp add: map_filter_def filter_map comp_def)

lemma scenario_tree_order:
  assumes A: "attrs_distinct A" and ix: "map index pgs = [1, 2, 3]"
  shows "\<exists>s. generateOutline A h pgs scenario_items = Inr s
     \<and> preorder 3 (doc s) (length h)
         = Some [length h, length h + 1, length h + 2, length h + 4, length h + 5, length h + 3,
                 length h + 6, length h + 7]
     \<and> List.map_filter (node_label (doc s))
           [length h, length h + 1, length h + 2, length h + 4, length h + 5, length h + 3,
            length h + 6, length h + 7]
         = [''A'', ''page:1'', ''page:2'', ''B'', ''page:3'']
     \<and> children (doc s ! length h) = [length h + 1, length h + 3]
     \<and> children (doc s ! (length h + 1)) = [length h + 2, length h + 4, length h + 5]
     \<and> children (doc s ! (length h + 3)) = [length h + 6, length h + 7]
     \<and> map stub (pages s) = [Some (length h + 4), Some (length h + 5), Some (length h + 7)]"
proof -
  define b where "b = length h"
  obtain s where g: "generateOutline A h pgs scenario_items = Inr s"
    and len: "length (doc s) = b + 8" and root: "gen_container (genElems s ! 0) = b"
    and old: "\<And>q. q < b \<Longrightarrow> children (h ! q) = [] \<Longrightarrow> children (doc s ! q) = []"
    and c: "children (doc s ! b) = [b + 1, b + 3]"
      "children (doc s ! (b + 1)) = [b + 2, b + 4, b + 5]"
      "children (doc s ! (b + 2)) = []"
      "children (doc s ! (b + 3)) = [b + 6, b + 7]"
      "children (doc s ! (b + 4)) = []"
      "children (doc s ! (b + 5)) = []"
      "children (doc s ! (b + 6)) = []"
      "children (doc s ! (b + 7)) = []"
    and lab: "map (node_label (doc s)) [b, b + 1, b + 2, b + 4, b + 5, b + 3, b + 6, b + 7]
         = [None, Some ''A'', None, Some ''page:1'', Some ''page:2'', Some ''B'', None, Some ''page:3'']"
    and st: "map stub (pages s) = [Some (b + 4), Some (b + 5), Some (b + 7)]"
    by (rule scenario_tree_facts [OF A ix, of h, folded b_def]) (rule that)
  have po: "preorder 3 (doc s) b = Some [b, b + 1, b + 2, b + 4, b + 5, b + 3, b + 6, b + 7]"
    using c by (simp add: eval_nat_numeral)
  have ml: "List.map_filter (node_label (doc s)) [b, b + 1, b + 2, b + 4, b + 5, b + 3, b + 6, b + 7]
      = [''A'', ''page:1'', ''page:2'', ''B'', ''page:3'']"
    unfolding map_filter_of_map [OF lab] by simp
  show ?thesis
    unfolding b_def [symmetric] using g po ml c(1,2,4) st by (intro exI [of _ s] conjI)
qed

lemma scenario_inputs:
  "attrs_distinct example_attrs" "map index scenario_pages = [1, 2, 3]"
  "0 < length scenario_doc \<and> children (scenario_doc ! 0) = []
     \<and> patchAttrs example_svgPatch = example_attrs"
  "length scenario_doc = 4"
  by (simp_all add: attrs_distinct_def example_attrs_def scenario_pages_def scenario_page_def
      scenario_doc_def example_element_def example_svgPatch_def)

text \<open>
  The claim C4 on its own inputs. Read in document order, the target tree is A, page 1,
  page 2, B, page 3: the placeholder of page 2 comes before B, not after it. After a
  first render the previous root has the two children A and B, not the five nodes of the
  sequence.
\<close>

theorem scenario_order_differs:
  "\<exists>s fin. generateOutline example_attrs scenario_doc scenario_pages scenario_items = Inr s
     \<and> preorder 3 (doc s) 4 = Some [4, 5, 6, 8, 9, 7, 10, 11]
     \<and> List.map_filter (node_label (doc s)) [4, 5, 6, 8, 9, 7, 10, 11]
         = [''A'', ''page:1'', ''page:2'', ''B'', ''page:3'']
     \<and> List.map_filter (node_label (doc s)) [4, 5, 6, 8, 9, 7, 10, 11]
         \<noteq> [''A'', ''page:1'', ''B'', ''page:2'', ''page:3'']
     \<and> patchOutlineEntry 0 example_svgPatch scenario_doc 0 scenario_pages scenario_items
         = Some (Inr fin)
     \<and> children (doc fin ! 0) = [5, 7]
     \<and> List.map_filter (node_label (doc fin)) (children (doc fin ! 0)) = [''A'', ''B'']"
proof -
  from scenario_tree_order [OF scenario_inputs(1,2), of scenario_doc]
  obtain s where 1: "generateOutline example_attrs scenario_doc scenario_pages scenario_items = Inr s"
    "preorder 3 (doc s) 4 = Some [4, 5, 6, 8, 9, 7, 10, 11]"
    "List.map_filter (node_label (doc s)) [4, 5, 6, 8, 9, 7, 10, 11]
         = [''A'', ''page:1'', ''page:2'', ''B'', ''page:3'']"
    unfolding scenario_inputs(4) by auto
  from scenario_inputs(3) have p: "0 < length scenario_doc" "children (scenario_doc ! 0) = []"
    "patchAttrs example_svgPatch = example_attrs" by simp_all
  from scenario_first_render [OF scenario_inputs(1,2) p, of 0]
  obtain fin where 2: "patchOutlineEntry 0 example_svgPatch scenario_doc 0 scenario_pages scenario_items
         = Some (Inr fin)"
    and c2: "children (doc fin ! 0) = [length scenario_doc + 1, length scenario_doc + 3]"
    and "children (doc fin ! length scenario_doc) = []"
    and "preorder 4 (doc fin) 0
         = Some [0, length scenario_doc + 1, length scenario_doc + 2, length scenario_doc + 4,
                 length scenario_doc + 5, length scenario_doc + 3,
                 length scenario_doc + 6, length scenario_doc + 7]"
    and l2: "map (node_label (doc fin))
           [length scenario_doc + 1, length scenario_doc + 2, length scenario_doc + 4,
            length scenario_doc + 5, length scenario_doc + 3,
            length scenario_doc + 6, length scenario_doc + 7]
         = [Some ''A'', None, Some ''page:1'', Some ''page:2'', Some ''B'', None, Some ''page:3'']"
    by (elim exE conjE)
  from c2 have c2': "children (doc fin ! 0) = [5, 7]" by (simp add: scenario_inputs(4))
  from l2 have "map (node_label (doc fin)) [5, 7] = [Some ''A'', Some ''B'']"
    by (simp add: scenario_inputs(4))
  from map_filter_of_map [OF this]
  have 3: "List.map_filter (node_label (doc fin)) (children (doc fin ! 0)) = [''A'', ''B'']"
    by (simp add: c2')
  from 1 2 c2' 3 show ?thesis
    by (intro exI [of _ s] exI [of _ fin]) simp
qed

text \<open>
  C4, amended. For the outline of the scenario and three pages of the indices 1, 2 and
  3, in any document: the root of the target tree has the children A and B; A holds its
  title and the placeholders of the pages 1 and 2, B holds its title and the placeholder
  of page 3; so the target tree in document order is A, page 1, page 2, B, page 3, the
  titles left out. A first render against a previous root without children moves A and B
  to the previous root: they are its children, the target root is left without
  children, and the tree below the previous root reads in document order as the same
  sequence.
\<close>

theorem scenario_target_tree:
  assumes "attrs_distinct A" and "map index pgs = [1, 2, 3]"
  shows "\<exists>s. generateOutline A h pgs scenario_items = Inr s
     \<and> preorder 3 (doc s) (length h)
         = Some [length h, length h + 1, length h + 2, length h + 4, length h + 5, length h + 3,
                 length h + 6, length h + 7]
     \<and> List.map_filter (node_label (doc s))
           [length h, length h + 1, length h + 2, length h + 4, length h + 5, length h + 3,
            length h + 6, length h + 7]
         = [''A'', ''page:1'', ''page:2'', ''B'', ''page:3'']
     \<and> children (doc s ! length h) = [length h + 1, length h + 3]
     \<and> children (doc s ! (length h + 1)) = [length h + 2, length h + 4, length h + 5]
     \<and> children (doc s ! (length h + 3)) = [length h + 6, length h + 7]
     \<and> map stub (pages s) = [Some (length h + 4), Some (length h + 5), Some (length h + 7)]
     \<and> (prev < length h \<and> children (h ! prev) = [] \<and> patchAttrs X = A \<longrightarrow>
          (\<exists>fin. patchOutlineEntry n X h prev pgs scenario_items = Some (Inr fin)
             \<and> children (doc fin ! prev) = [length h + 1, length h + 3]
             \<and> children (doc fin ! length h) = []
             \<and> preorder 4 (doc fin) prev
                 = Some [prev, length h + 1, length h + 2, length h + 4, length h + 5, length h + 3,
                         length h + 6, length h + 7]
             \<and> List.map_filter (node_label (doc fin))
                   [length h + 1, length h + 2, length h + 4, length h + 5, length h + 3,
                    length h + 6, length h + 7]
                 = [''A'', ''page:1'', ''page:2'', ''B'', ''page:3'']))"
proof -
  from scenario_tree_order [OF assms, of h]
  obtain s where 1: "generateOutline A h pgs scenario_items = Inr s
     \<and> preorder 3 (doc s) (length h)
         = Some [length h, length h + 1, length h + 2, length h + 4, length h + 5, length h + 3,
                 length h + 6, length h + 7]
     \<and> List.map_filter (node_label (doc s))
           [length h, length h + 1, length h + 2, length h + 4, length h + 5, length h + 3,
            length h + 6, length h + 7]
         = [''A'', ''page:1'', ''page:2'', ''B'', ''page:3'']
     \<and> children (doc s ! length h) = [length h + 1, length h + 3]
     \<and> children (doc s ! (length h + 1)) = [length h + 2, length h + 4, length h + 5]
     \<and> children (doc s ! (length h + 3)) = [length h + 6, length h + 7]
     \<and> map stub (pages s) = [Some (length h + 4), Some (length h + 5), Some (length h + 7)]" ..
  have 2: "\<exists>fin. patchOutlineEntry n X h prev pgs scenario_items = Some (Inr fin)
             \<and> children (doc fin ! prev) = [length h + 1, length h + 3]
             \<and> children (doc fin ! length h) = []
             \<and> preorder 4 (doc fin) prev
                 = Some [prev, length h + 1, length h + 2, length h + 4, length h + 5, length h + 3,
                         length h + 6, length h + 7]
             \<and> List.map_filter (node_label (doc fin))
                   [length h + 1, length h + 2, length h + 4, length h + 5, length h + 3,
                    length h + 6, length h + 7]
                 = [''A'', ''page:1'', ''page:2'', ''B'', ''page:3'']"
    if p: "prev < length h \<and> children (h ! prev) = [] \<and> patchAttrs X = A"
  proof -
    from p have p': "prev < length h" "children (h ! prev) = []" "patchAttrs X = A" by simp_all
    from scenario_first_render [OF assms p', of n]
    obtain fin where f: "patchOutlineEntry n X h prev pgs scenario_items = Some (Inr fin)"
      "children (doc fin ! prev) = [length h + 1, length h + 3]"
      "children (doc fin ! length h) = []"
      "preorder 4 (doc fin) prev
         = Some [prev, length h + 1, length h + 2, length h + 4, length h + 5, length h + 3,
                 length h + 6, length h + 7]"
      and l: "map (node_label (doc fin))
           [length h + 1, length h + 2, length h + 4, length h + 5, length h + 3,
            length h + 6, length h + 7]
         = [Some ''A'', None, Some ''page:1'', Some ''page:2'', Some ''B'', None, Some ''page:3'']"
      by (elim exE conjE)
    have "List.map_filter (node_label (doc fin))
                   [length h + 1, length h + 2, length h + 4, length h + 5, length h + 3,
                    length h + 6, length h + 7]
                 = [''A'', ''page:1'', ''page:2'', ''B'', ''page:3'']"
      unfolding map_filter_of_map [OF l] by simp
    with f show ?thesis by (intro exI [of _ fin] conjI)
  qed
  from 1 2 show ?thesis by (intro exI [of _ s]) blast
qed

theorem scenario_target_tree_witness:
  "attrs_distinct example_attrs \<and> map index scenario_pages = [1, 2, 3]
   \<and> (\<exists>s. generateOutline example_attrs scenario_doc scenario_pages scenario_items = Inr s
     \<and> preorder 3 (doc s) 4 = Some [4, 5, 6, 8, 9, 7, 10, 11]
     \<and> List.map_filter (node_label (doc s)) [4, 5, 6, 8, 9, 7, 10, 11]
         = [''A'', ''page:1'', ''page:2'', ''B'', ''page:3'']
     \<and> children (doc s ! 4) = [5, 7]
     \<and> children (doc s ! 5) = [6, 8, 9]
     \<and> children (doc s ! 7) = [10, 11]
     \<and> map stub (pages s) = [Some 8, Some 9, Some 11]
     \<and> 0 < length scenario_doc \<and> children (scenario_doc ! 0) = []
     \<and> patchAttrs example_svgPatch = example_attrs
     \<and> (\<exists>fin. patchOutlineEntry 0 example_svgPatch scenario_doc 0 scenario_pages scenario_items
                 = Some (Inr fin)
             \<and> children (doc fin ! 0) = [5, 7]
             \<and> children (doc fin ! 4) = []
             \<and> preorder 4 (doc fin) 0 = Some [0, 5, 6, 8, 9, 7, 10, 11]
             \<and> List.map_filter (node_label (doc fin)) [5, 6, 8, 9, 7, 10, 11]
                 = [''A'', ''page:1'', ''page:2'', ''B'', ''page:3'']))"
  using scenario_target_tree [OF scenario_inputs(1,2), of scenario_doc 0 example_svgPatch 0]
    scenario_inputs
  by (simp only: simp_thms) (simp del: map_eq_Cons_conv)

end
